theory Spec2Isabelle
  imports Main "HOL-Library.Monad_Syntax" "HOL-Library.Word"
begin

section \<open>The Banker's algorithm of Banker.cpp\<close>

text \<open>
  The class \<^verbatim>\<open>BankersAlgorithm\<close> holds five vectors: \<^verbatim>\<open>allocation\<close>, \<^verbatim>\<open>max\<close>,
  \<^verbatim>\<open>available\<close>, \<^verbatim>\<open>resources\<close> and \<^verbatim>\<open>completed\<close>. The field \<^verbatim>\<open>max\<close> is
  called \<open>max_claim\<close> here, since \<open>max\<close> is a constant of HOL. The mutex and the
  condition variable are not modelled: every operation runs alone, from its first line
  to its return.

  The entries are C++ \<^verbatim>\<open>int\<close>s: 32-bit words in two's complement. The C++ standard
  leaves signed overflow undefined; the compiled program wraps around, and so does the
  model: \<open>+\<close> and \<open>-\<close> on \<open>cint\<close> wrap, and a comparison reads both sides as signed
  integers (\<open>sint\<close>). Entries may be negative, as in the source, which never checks a
  sign.

  Indexing a \<^verbatim>\<open>std::vector\<close> outside its bounds is undefined behaviour as well. The
  model makes it a value: every operation returns an \<open>option\<close>, and \<open>None\<close> says that
  the program read or wrote a vector out of bounds. \<open>Some\<close> is a normal return.
\<close>

type_synonym cint = "32 word"

record banker =
  allocation :: "cint list list"
  max_claim :: "cint list list"
  available :: "cint list"
  resources :: "cint list"
  completed :: "bool list"

subsection \<open>Vector accesses\<close>

text \<open>\<^verbatim>\<open>v[i]\<close> for a loop index, \<^verbatim>\<open>m[i][j]\<close>, and \<^verbatim>\<open>v[processId]\<close> for the
  \<^verbatim>\<open>int\<close> argument \<^verbatim>\<open>processId\<close>: a negative \<^verbatim>\<open>int\<close> converts to a \<^verbatim>\<open>size_t\<close>
  beyond every vector's size.\<close>

definition vec_at :: "'a list \<Rightarrow> nat \<Rightarrow> 'a option" where
  "vec_at xs i = (if i < length xs then Some (xs ! i) else None)"

definition mat_at :: "'a list list \<Rightarrow> nat \<Rightarrow> nat \<Rightarrow> 'a option" where
  "mat_at xss i j = do { row \<leftarrow> vec_at xss i; vec_at row j }"

definition vec_at_int :: "'a list \<Rightarrow> int \<Rightarrow> 'a option" where
  "vec_at_int xs p = (if 0 \<le> p then vec_at xs (nat p) else None)"

subsection \<open>The constructor (lines 20-35)\<close>

text \<open>The inner loop \<^verbatim>\<open>acc[j] += m[i][j]\<close> over the columns \<open>js\<close>. The constructor runs
  it on \<^verbatim>\<open>resources\<close> (line 32), \<^verbatim>\<open>isSafeState\<close> on \<^verbatim>\<open>work\<close> (line 153).\<close>

fun add_row :: "cint list list \<Rightarrow> nat \<Rightarrow> nat list \<Rightarrow> cint list \<Rightarrow> cint list option" where
  "add_row xss i [] acc = Some acc"
| "add_row xss i (j # js) acc = do {
     x \<leftarrow> mat_at xss i j;
     a \<leftarrow> vec_at acc j;
     add_row xss i js (acc[j := a + x]) }"

fun column_sums :: "cint list list \<Rightarrow> nat list \<Rightarrow> nat \<Rightarrow> cint list \<Rightarrow> cint list option" where
  "column_sums al [] numResources res = Some res"
| "column_sums al (i # is) numResources res = do {
     res' \<leftarrow> add_row al i [0..<numResources] res;
     column_sums al is numResources res' }"

definition BankersAlgorithm ::
  "cint list list \<Rightarrow> cint list list \<Rightarrow> cint list \<Rightarrow> banker option" where
  "BankersAlgorithm al mx av = do {
     row0 \<leftarrow> vec_at al 0;
     let numProcesses = length al;
     let numResources = length row0;
     res \<leftarrow> column_sums al [0..<numProcesses] numResources (replicate numResources 0);
     Some \<lparr>allocation = al, max_claim = mx, available = av, resources = res,
            completed = replicate numProcesses False\<rparr> }"

subsection \<open>isSafeState (lines 107-173)\<close>

text \<open>Lines 117-123: \<^verbatim>\<open>need[i][j] = max[i][j] - allocation[i][j]\<close>, row by row.\<close>

fun need_row :: "cint list list \<Rightarrow> cint list list \<Rightarrow> nat \<Rightarrow> nat list \<Rightarrow> cint list option" where
  "need_row mx al i [] = Some []"
| "need_row mx al i (j # js) = do {
     a \<leftarrow> mat_at mx i j;
     b \<leftarrow> mat_at al i j;
     rest \<leftarrow> need_row mx al i js;
     Some ((a - b) # rest) }"

fun need_matrix :: "cint list list \<Rightarrow> cint list list \<Rightarrow> nat list \<Rightarrow> nat \<Rightarrow> cint list list option" where
  "need_matrix mx al [] numResources = Some []"
| "need_matrix mx al (i # is) numResources = do {
     r \<leftarrow> need_row mx al i [0..<numResources];
     rest \<leftarrow> need_matrix mx al is numResources;
     Some (r # rest) }"

text \<open>Lines 137-146: the loop that computes \<^verbatim>\<open>canExecute\<close>, leaving at the first column
  whose need exceeds the work.\<close>

fun canExecute :: "cint list \<Rightarrow> cint list \<Rightarrow> nat list \<Rightarrow> bool option" where
  "canExecute nd work [] = Some True"
| "canExecute nd work (j # js) = do {
     x \<leftarrow> vec_at nd j;
     w \<leftarrow> vec_at work j;
     if sint x > sint w then Some False else canExecute nd work js }"

text \<open>Lines 132-158: one pass of the \<^verbatim>\<open>for\<close> loop over the processes \<open>is\<close>. The loop
  state is \<^verbatim>\<open>(safe, work, finished, count)\<close>.\<close>

fun scan :: "cint list list \<Rightarrow> cint list list \<Rightarrow> nat \<Rightarrow> nat list \<Rightarrow>
    bool list \<times> cint list \<times> bool \<times> nat \<Rightarrow> (bool list \<times> cint list \<times> bool \<times> nat) option" where
  "scan need al numResources [] st = Some st"
| "scan need al numResources (i # is) (safe, work, finished, count) = do {
     marked \<leftarrow> vec_at safe i;
     if marked then scan need al numResources is (safe, work, finished, count)
     else do {
       nd \<leftarrow> vec_at need i;
       can \<leftarrow> canExecute nd work [0..<numResources];
       if can then do {
         work' \<leftarrow> add_row al i [0..<numResources] work;
         scan need al numResources is (safe[i := True], work', False, Suc count) }
       else scan need al numResources is (safe, work, finished, count) } }"

text \<open>Lines 128-159: the \<^verbatim>\<open>do ... while (!finished && count < numProcesses)\<close> loop. Each
  round sets \<^verbatim>\<open>finished = true\<close> and scans all processes. The result is the loop state
  at the exit.\<close>

function safety_loop :: "cint list list \<Rightarrow> cint list list \<Rightarrow> nat \<Rightarrow> nat \<Rightarrow>
    bool list \<times> cint list \<times> nat \<Rightarrow> (bool list \<times> cint list \<times> bool \<times> nat) option" where
  "safety_loop need al numProcesses numResources (safe, work, count) =
     (case scan need al numResources [0..<numProcesses] (safe, work, True, count) of
        None \<Rightarrow> None
      | Some (safe', work', finished, count') \<Rightarrow>
          if \<not> finished \<and> count' < numProcesses
          then safety_loop need al numProcesses numResources (safe', work', count')
          else Some (safe', work', finished, count'))"
  by pat_completeness auto
termination safety_loop
proof (relation "measure (\<lambda>(need, al, n, m, safe, work, count). n - count)")
  show "wf (measure (\<lambda>(need, al, n, m, safe, work, count). n - count))"
    by simp
next
  fix need al :: "cint list list" and numProcesses numResources count count' :: nat
    and safe safe' :: "bool list" and work work' :: "cint list" and finished :: bool
    and x y z
  assume scanned:
    "scan need al numResources [0..<numProcesses] (safe, work, True, count) = Some x"
    "(safe', y) = x" "(work', z) = y" "(finished, count') = z"
    and again: "\<not> finished \<and> count' < numProcesses"
  have grows: "c \<le> c' \<and> (f \<and> \<not> f' \<longrightarrow> c < c')"
    if "scan need al numResources ps (sf, w, f, c) = Some (sf', w', f', c')"
    for ps sf w f c sf' w' f' c'
    using that
  proof (induction ps arbitrary: sf w f c)
    case Nil
    then show ?case by simp
  next
    case (Cons i ps)
    from Cons.prems show ?case
      by (auto split: bind_splits if_splits dest: Cons.IH)
  qed
  from scanned have
    "scan need al numResources [0..<numProcesses] (safe, work, True, count) =
       Some (safe', work', finished, count')"
    by auto
  from grows [OF this] again have "count < count'" and "count' < numProcesses"
    by auto
  then show "((need, al, numProcesses, numResources, safe', work', count'),
              (need, al, numProcesses, numResources, safe, work, count))
             \<in> measure (\<lambda>(need, al, n, m, safe, work, count). n - count)"
    by simp
qed

declare safety_loop.simps [simp del]

text \<open>The part of \<^verbatim>\<open>isSafeState\<close> up to the end of the loop (lines 109-159).\<close>

definition safety_scan :: "banker \<Rightarrow> (bool list \<times> cint list \<times> bool \<times> nat) option" where
  "safety_scan s = do {
     row0 \<leftarrow> vec_at (allocation s) 0;
     let numProcesses = length (allocation s);
     let numResources = length row0;
     need \<leftarrow> need_matrix (max_claim s) (allocation s) [0..<numProcesses] numResources;
     safety_loop need (allocation s) numProcesses numResources
       (replicate numProcesses False, available s, 0) }"

text \<open>Lines 161-172: false when \<^verbatim>\<open>count < numProcesses\<close>, else whether every flag of
  \<^verbatim>\<open>safe\<close> is set.\<close>

definition isSafeState :: "banker \<Rightarrow> bool option" where
  "isSafeState s = do {
     (safe, work, finished, count) \<leftarrow> safety_scan s;
     Some (if count < length (allocation s) then False else list_all id safe) }"

subsection \<open>requestResources (lines 37-89)\<close>

text \<open>Lines 42-48: true when no entry of the request made the loop return false. The
  \<^verbatim>\<open>||\<close> reads \<^verbatim>\<open>available[i]\<close> only when the first comparison is false.\<close>

fun check_request :: "banker \<Rightarrow> int \<Rightarrow> cint list \<Rightarrow> nat list \<Rightarrow> bool option" where
  "check_request s processId request [] = Some True"
| "check_request s processId request (i # is) = do {
     r \<leftarrow> vec_at request i;
     mrow \<leftarrow> vec_at_int (max_claim s) processId;
     mx \<leftarrow> vec_at mrow i;
     arow \<leftarrow> vec_at_int (allocation s) processId;
     a \<leftarrow> vec_at arow i;
     if sint r > sint (mx - a) then Some False
     else do {
       av \<leftarrow> vec_at (available s) i;
       if sint r > sint av then Some False else check_request s processId request is } }"

text \<open>Lines 56-61, on the copies \<^verbatim>\<open>(tempAllocation, tempAvailable, tempResources)\<close>.\<close>

fun tentative :: "int \<Rightarrow> cint list \<Rightarrow> nat list \<Rightarrow>
    cint list list \<times> cint list \<times> cint list \<Rightarrow> (cint list list \<times> cint list \<times> cint list) option" where
  "tentative processId request [] st = Some st"
| "tentative processId request (i # is) (tempAllocation, tempAvailable, tempResources) = do {
     r \<leftarrow> vec_at request i;
     row \<leftarrow> vec_at_int tempAllocation processId;
     a \<leftarrow> vec_at row i;
     av \<leftarrow> vec_at tempAvailable i;
     rs \<leftarrow> vec_at tempResources i;
     tentative processId request is
       (tempAllocation[nat processId := row[i := a + r]],
        tempAvailable[i := av - r],
        tempResources[i := rs - r]) }"

text \<open>Lines 77-81, on \<^verbatim>\<open>(available, resources)\<close>.\<close>

fun add_back :: "cint list \<Rightarrow> nat list \<Rightarrow> cint list \<times> cint list \<Rightarrow> (cint list \<times> cint list) option" where
  "add_back request [] st = Some st"
| "add_back request (i # is) (av, res) = do {
     r \<leftarrow> vec_at request i;
     a \<leftarrow> vec_at av i;
     rs \<leftarrow> vec_at res i;
     add_back request is (av[i := a + r], res[i := rs + r]) }"

text \<open>\<^verbatim>\<open>completed[processId] = value\<close> (lines 74 and 103).\<close>

definition set_completed :: "bool list \<Rightarrow> int \<Rightarrow> bool \<Rightarrow> bool list option" where
  "set_completed cs processId b =
     (if 0 \<le> processId \<and> nat processId < length cs then Some (cs[nat processId := b]) else None)"

text \<open>The result is the returned \<^verbatim>\<open>bool\<close> and the object's state after the call.\<close>

definition requestResources :: "banker \<Rightarrow> int \<Rightarrow> cint list \<Rightarrow> (bool \<times> banker) option" where
  "requestResources s processId request = do {
     ok \<leftarrow> check_request s processId request [0..<length request];
     if \<not> ok then Some (False, s)
     else do {
       (tempAllocation, tempAvailable, tempResources) \<leftarrow>
         tentative processId request [0..<length request]
           (allocation s, available s, resources s);
       tempBanker \<leftarrow> BankersAlgorithm tempAllocation (max_claim s) tempAvailable;
       safeState \<leftarrow> isSafeState tempBanker;
       if safeState then do {
         cs \<leftarrow> set_completed (completed s) processId True;
         (av, res) \<leftarrow> add_back request [0..<length request] (tempAvailable, tempResources);
         Some (True, s\<lparr>allocation := tempAllocation, available := av, resources := res,
                       completed := cs\<rparr>) }
       else Some (False, s) } }"

subsection \<open>releaseResources (lines 91-105)\<close>

fun release_loop :: "int \<Rightarrow> cint list \<Rightarrow> nat list \<Rightarrow>
    cint list list \<times> cint list \<times> cint list \<Rightarrow> (cint list list \<times> cint list \<times> cint list) option" where
  "release_loop processId release [] st = Some st"
| "release_loop processId release (i # is) (al, av, res) = do {
     r \<leftarrow> vec_at release i;
     row \<leftarrow> vec_at_int al processId;
     a \<leftarrow> vec_at row i;
     v \<leftarrow> vec_at av i;
     rs \<leftarrow> vec_at res i;
     release_loop processId release is
       (al[nat processId := row[i := a - r]], av[i := v + r], res[i := rs + r]) }"

definition releaseResources :: "banker \<Rightarrow> int \<Rightarrow> cint list \<Rightarrow> banker option" where
  "releaseResources s processId release = do {
     (al, av, res) \<leftarrow>
       release_loop processId release [0..<length release]
         (allocation s, available s, resources s);
     cs \<leftarrow> set_completed (completed s) processId False;
     Some (s\<lparr>allocation := al, available := av, resources := res, completed := cs\<rparr>) }"

section \<open>The notions the properties are stated in\<close>

text \<open>\<^verbatim>\<open>numProcesses\<close> and \<^verbatim>\<open>numResources\<close> as lines 109-110 (and 23-24) compute them:
  the number of rows of \<^verbatim>\<open>allocation\<close> and the length of its first row.\<close>

definition numProcesses :: "banker \<Rightarrow> nat" where
  "numProcesses s = length (allocation s)"

definition numResources :: "banker \<Rightarrow> nat" where
  "numResources s = (case allocation s of [] \<Rightarrow> 0 | row0 # _ \<Rightarrow> length row0)"

text \<open>The properties speak of the entries as integers: the value of an entry is its
  \<open>sint\<close>, and sums and differences of values are taken in the integers, where nothing
  wraps. The need of process \<open>p\<close> for resource \<open>r\<close>, and the work vector an ordering of
  the processes has accumulated before its \<open>k\<close>-th process runs: \<^verbatim>\<open>available\<close> plus the
  allocations of the \<open>k\<close> processes before it.\<close>

definition need_of :: "banker \<Rightarrow> nat \<Rightarrow> nat \<Rightarrow> int" where
  "need_of s p r = sint (max_claim s ! p ! r) - sint (allocation s ! p ! r)"

definition work_before :: "banker \<Rightarrow> nat list \<Rightarrow> nat \<Rightarrow> nat \<Rightarrow> int" where
  "work_before s order k r =
     sint (available s ! r) + (\<Sum>q\<leftarrow>take k order. sint (allocation s ! q ! r))"



definition nonneg_allocation :: "banker \<Rightarrow> bool" where
  "nonneg_allocation s \<longleftrightarrow> list_all (list_all (\<lambda>x. 0 \<le> sint x)) (allocation s)"

definition nonneg :: "cint list \<Rightarrow> bool" where
  "nonneg xs \<longleftrightarrow> list_all (\<lambda>x. 0 \<le> sint x) xs"

text \<open>A release within what the process holds: \<^verbatim>\<open>processId\<close> in range and
  \<^verbatim>\<open>amounts[r] <= allocation[processId][r]\<close> for every entry of \<^verbatim>\<open>amounts\<close>.\<close>

definition within_allocation :: "banker \<Rightarrow> int \<Rightarrow> cint list \<Rightarrow> bool" where
  "within_allocation s processId amounts \<longleftrightarrow>
     0 \<le> processId \<and> nat processId < length (allocation s) \<and>
     list_all (\<lambda>r. r < length (allocation s ! nat processId) \<and>
                   sint (amounts ! r) \<le> sint (allocation s ! nat processId ! r))
       [0..<length amounts]"

text \<open>The units of resource \<open>r\<close> in the system: those allocated plus those available.\<close>

definition total :: "banker \<Rightarrow> nat \<Rightarrow> int" where
  "total s r = (\<Sum>row\<leftarrow>allocation s. sint (row ! r)) + sint (available s ! r)"

text \<open>The range of \<^verbatim>\<open>int\<close>, and the states on which the arithmetic of \<^verbatim>\<open>isSafeState\<close>
  stays within it: no need \<^verbatim>\<open>max[p][r] - allocation[p][r]\<close> (lines 44, 121) leaves the range,
  and no total of a resource exceeds \<open>INT_MAX\<close>, so that with no negative allocation
  \<^verbatim>\<open>work[r] += allocation[p][r]\<close> (line 153) never wraps.\<close>

definition INT_MAX :: int where
  "INT_MAX = 2147483647"

definition INT_MIN :: int where
  "INT_MIN = - 2147483648"

definition in_range :: "int \<Rightarrow> bool" where
  "in_range k \<longleftrightarrow> INT_MIN \<le> k \<and> k \<le> INT_MAX"

definition needs_fit :: "banker \<Rightarrow> bool" where
  "needs_fit s \<longleftrightarrow>
     list_all (\<lambda>p. list_all (\<lambda>r. in_range (need_of s p r)) [0..<numResources s])
       [0..<numProcesses s]"

definition totals_fit :: "banker \<Rightarrow> bool" where
  "totals_fit s \<longleftrightarrow> list_all (\<lambda>r. total s r \<le> INT_MAX) [0..<numResources s]"

text \<open>The calls whose arithmetic on resource \<open>r\<close> stays within the range: lines 98-99 for a
  release, line 58 for a request.\<close>

definition release_fits :: "banker \<Rightarrow> int \<Rightarrow> cint list \<Rightarrow> nat \<Rightarrow> bool" where
  "release_fits s processId amounts r \<longleftrightarrow>
     (if r < length amounts
      then in_range (sint (allocation s ! nat processId ! r) - sint (amounts ! r)) \<and>
           in_range (sint (available s ! r) + sint (amounts ! r))
      else True)"

definition grant_fits :: "banker \<Rightarrow> int \<Rightarrow> cint list \<Rightarrow> nat \<Rightarrow> bool" where
  "grant_fits s processId demand r \<longleftrightarrow>
     (if r < length demand
      then in_range (sint (allocation s ! nat processId ! r) + sint (demand ! r))
      else True)"

text \<open>What the loops over a vector compute: \<open>acc[j] = f acc[j] row[j]\<close> for the columns
  \<open>k \<le> j < m\<close>, and the two instances over all entries of a request.\<close>

definition upd_range ::
  "(cint \<Rightarrow> cint \<Rightarrow> cint) \<Rightarrow> nat \<Rightarrow> nat \<Rightarrow> cint list \<Rightarrow> cint list \<Rightarrow> cint list" where
  "upd_range f k m acc row =
     map (\<lambda>j. if k \<le> j \<and> j < m then f (acc ! j) (row ! j) else acc ! j) [0..<length acc]"

definition add_prefix :: "cint list \<Rightarrow> cint list \<Rightarrow> cint list" where
  "add_prefix xs rs = upd_range (+) 0 (length rs) xs rs"

definition sub_prefix :: "cint list \<Rightarrow> cint list \<Rightarrow> cint list" where
  "sub_prefix xs rs = upd_range (-) 0 (length rs) xs rs"

subsection \<open>The states of runScenarios (lines 214-260)\<close>

definition scenario_allocation :: "cint list list" where
  "scenario_allocation = [[0, 1, 0], [2, 0, 0], [3, 0, 2], [2, 1, 1], [0, 0, 2]]"

definition scenario_max :: "cint list list" where
  "scenario_max = [[7, 5, 3], [3, 2, 2], [9, 0, 2], [2, 2, 2], [4, 3, 3]]"

definition scenario_available :: "cint list" where
  "scenario_available = [3, 3, 2]"

text \<open>The object after line 231, and after the request of line 236.\<close>

definition scenario0 :: banker where
  "scenario0 = \<lparr>allocation = scenario_allocation, max_claim = scenario_max,
     available = scenario_available, resources = [7, 2, 5],
     completed = [False, False, False, False, False]\<rparr>"

definition scenario1 :: banker where
  "scenario1 = \<lparr>allocation = [[0, 1, 0], [3, 0, 2], [3, 0, 2], [2, 1, 1], [0, 0, 2]],
     max_claim = scenario_max, available = scenario_available, resources = [7, 2, 5],
     completed = [False, True, False, False, False]\<rparr>"

subsection \<open>The notions of the proofs\<close>

text \<open>A state on which \<^verbatim>\<open>isSafeState\<close> reads every vector within its bounds.\<close>

definition in_bounds :: "banker \<Rightarrow> bool" where
  "in_bounds s \<longleftrightarrow>
     allocation s \<noteq> [] \<and>
     (\<forall>i<numProcesses s. \<forall>j<numResources s.
        i < length (max_claim s) \<and> j < length (max_claim s ! i) \<and> j < length (allocation s ! i)) \<and>
     numResources s \<le> length (available s)"

text \<open>The need as line 121 computes it, which is \<open>need_of\<close> where that is within the
  range of \<^verbatim>\<open>int\<close>, and the orderings that are safe for these needs.\<close>

definition code_need :: "banker \<Rightarrow> nat \<Rightarrow> nat \<Rightarrow> int" where
  "code_need s p r = sint (max_claim s ! p ! r - allocation s ! p ! r)"

definition code_order :: "banker \<Rightarrow> nat list \<Rightarrow> bool" where
  "code_order s order \<longleftrightarrow>
     distinct order \<and> set order = {..<numProcesses s} \<and>
     (\<forall>k<length order. \<forall>r<numResources s.
        code_need s (order ! k) r \<le> work_before s order k r)"

definition need_mat :: "banker \<Rightarrow> cint list list" where
  "need_mat s = map (\<lambda>i. map (\<lambda>j. max_claim s ! i ! j - allocation s ! i ! j) [0..<numResources s])
     [0..<numProcesses s]"

text \<open>One step of the scan where nothing is out of bounds, as a total function.\<close>

definition fits :: "nat \<Rightarrow> cint list \<Rightarrow> cint list \<Rightarrow> bool" where
  "fits m nd w \<longleftrightarrow> (\<forall>j<m. sint (nd ! j) \<le> sint (w ! j))"

fun pstep :: "cint list list \<Rightarrow> cint list list \<Rightarrow> nat \<Rightarrow> nat \<Rightarrow>
    bool list \<times> cint list \<times> bool \<times> nat \<Rightarrow> bool list \<times> cint list \<times> bool \<times> nat" where
  "pstep need al m i (safe, work, finished, count) =
     (if \<not> safe ! i \<and> fits m (need ! i) work
      then (safe[i := True], upd_range (+) 0 m work (al ! i), False, Suc count)
      else (safe, work, finished, count))"

text \<open>The invariant of the loop: \<open>order\<close> lists the marked processes in the order in
  which they were marked. Where no allocation is negative and the totals do not exceed
  \<open>INT_MAX\<close> (\<open>sums_ok\<close>), each of them fitted the work of its time, and the value of
  \<open>work\<close> is that of \<open>avail\<close> plus what they hold.\<close>

definition marked :: "nat \<Rightarrow> bool list \<Rightarrow> nat set" where
  "marked n safe = {i. i < n \<and> safe ! i}"

definition sums_ok :: "cint list list \<Rightarrow> cint list \<Rightarrow> nat \<Rightarrow> nat \<Rightarrow> bool" where
  "sums_ok al avail n m \<longleftrightarrow>
     (\<forall>q<n. \<forall>j<m. 0 \<le> sint (al ! q ! j)) \<and>
     (\<forall>j<m. sint (avail ! j) + (\<Sum>q\<leftarrow>[0..<n]. sint (al ! q ! j)) \<le> INT_MAX)"

definition chain :: "cint list list \<Rightarrow> cint list list \<Rightarrow> cint list \<Rightarrow> nat \<Rightarrow> nat list \<Rightarrow> bool" where
  "chain need al avail m order \<longleftrightarrow>
     (\<forall>k<length order. \<forall>j<m.
        sint (need ! (order ! k) ! j) \<le>
          sint (avail ! j) + (\<Sum>q\<leftarrow>take k order. sint (al ! q ! j)))"

definition loop_inv :: "cint list list \<Rightarrow> cint list list \<Rightarrow> cint list \<Rightarrow> nat \<Rightarrow> nat \<Rightarrow> nat list \<Rightarrow>
    bool list \<Rightarrow> cint list \<Rightarrow> nat \<Rightarrow> bool" where
  "loop_inv need al avail n m order safe work count \<longleftrightarrow>
     length safe = n \<and> length work = length avail \<and> distinct order \<and>
     set order = marked n safe \<and> count = length order \<and>
     (sums_ok al avail n m \<longrightarrow>
        chain need al avail m order \<and>
        (\<forall>j<m. sint (work ! j) = sint (avail ! j) + (\<Sum>q\<leftarrow>order. sint (al ! q ! j))))"

section \<open>Lemmas\<close>

subsection \<open>Values within the range of int\<close>

lemma sint_in_range: "in_range (sint (x :: cint))"
  using sint_ge [of x] sint_lt [of x] by (simp add: in_range_def INT_MIN_def INT_MAX_def)

lemma sint_add_fits: "in_range (sint a + sint b) \<Longrightarrow> sint (a + b :: cint) = sint a + sint b"
  by (simp add: in_range_def INT_MIN_def INT_MAX_def sint_word_add signed_take_bit_int_eq_self)

lemma sint_sub_fits: "in_range (sint a - sint b) \<Longrightarrow> sint (a - b :: cint) = sint a - sint b"
  by (simp add: in_range_def INT_MIN_def INT_MAX_def sint_word_diff signed_take_bit_int_eq_self)

lemma sum_list_subset_le:
  fixes f :: "nat \<Rightarrow> int"
  assumes "distinct xs" and "distinct ys" and "set xs \<subseteq> set ys" and "\<forall>y\<in>set ys. 0 \<le> f y"
  shows "(\<Sum>q\<leftarrow>xs. f q) \<le> (\<Sum>q\<leftarrow>ys. f q)"
proof -
  have "(\<Sum>q\<leftarrow>xs. f q) = sum f (set xs)" using assms(1) by (rule sum_list_distinct_conv_sum_set)
  also have "\<dots> \<le> sum f (set ys)" using assms(3,4) by (intro sum_mono2) auto
  also have "\<dots> = (\<Sum>q\<leftarrow>ys. f q)" using assms(2) by (rule sum_list_distinct_conv_sum_set [symmetric])
  finally show ?thesis .
qed

lemma partial_sum_bounds:
  assumes "sums_ok al avail n m" and "distinct xs" and "set xs \<subseteq> {..<n}" and "j < m"
  shows "0 \<le> (\<Sum>q\<leftarrow>xs. sint (al ! q ! j))"
    and "in_range (sint (avail ! j) + (\<Sum>q\<leftarrow>xs. sint (al ! q ! j)))"
proof -
  from assms(1,4) have nn: "\<forall>q<n. 0 \<le> sint (al ! q ! j)"
    and tot: "sint (avail ! j) + (\<Sum>q\<leftarrow>[0..<n]. sint (al ! q ! j)) \<le> INT_MAX"
    by (simp_all add: sums_ok_def)
  from nn assms(3) show lo: "0 \<le> (\<Sum>q\<leftarrow>xs. sint (al ! q ! j))"
    by (intro sum_list_nonneg) auto
  have "(\<Sum>q\<leftarrow>xs. sint (al ! q ! j)) \<le> (\<Sum>q\<leftarrow>[0..<n]. sint (al ! q ! j))"
    using assms(2,3) nn by (intro sum_list_subset_le) auto
  with tot lo sint_in_range [of "avail ! j"]
  show "in_range (sint (avail ! j) + (\<Sum>q\<leftarrow>xs. sint (al ! q ! j)))"
    by (simp add: in_range_def)
qed

subsection \<open>Vector accesses\<close>

lemma vec_at_Some: "vec_at xs i = Some x \<longleftrightarrow> i < length xs \<and> x = xs ! i"
  by (auto simp: vec_at_def)

lemma vec_at_in: "i < length xs \<Longrightarrow> vec_at xs i = Some (xs ! i)"
  by (simp add: vec_at_def)

lemma mat_at_Some:
  "mat_at xss i j = Some x \<longleftrightarrow> i < length xss \<and> j < length (xss ! i) \<and> x = xss ! i ! j"
  by (auto simp: mat_at_def vec_at_def split: bind_splits)

lemma mat_at_in: "i < length xss \<Longrightarrow> j < length (xss ! i) \<Longrightarrow> mat_at xss i j = Some (xss ! i ! j)"
  by (simp add: mat_at_Some)

subsection \<open>The loops over a vector\<close>

lemma length_upd_range [simp]: "length (upd_range f k m acc row) = length acc"
  by (simp add: upd_range_def)

lemma nth_upd_range:
  "j < length acc \<Longrightarrow>
   upd_range f k m acc row ! j = (if k \<le> j \<and> j < m then f (acc ! j) (row ! j) else acc ! j)"
  by (simp add: upd_range_def)

lemma upd_range_empty: "m \<le> k \<Longrightarrow> upd_range f k m acc row = acc"
  by (intro nth_equalityI) (auto simp: nth_upd_range)

lemma upd_range_step:
  assumes "k < m" and "k < length acc"
  shows "upd_range f (Suc k) m (acc[k := f (acc ! k) (row ! k)]) row = upd_range f k m acc row"
proof (intro nth_equalityI)
  fix j assume "j < length (upd_range f (Suc k) m (acc[k := f (acc ! k) (row ! k)]) row)"
  then have j: "j < length acc" by simp
  show "upd_range f (Suc k) m (acc[k := f (acc ! k) (row ! k)]) row ! j = upd_range f k m acc row ! j"
  proof (cases "j = k")
    case True
    with j assms show ?thesis by (simp add: nth_upd_range)
  next
    case False
    then have "Suc k \<le> j \<longleftrightarrow> k \<le> j" by auto
    with j False show ?thesis by (simp add: nth_upd_range)
  qed
qed simp

lemma length_add_prefix [simp]: "length (add_prefix xs rs) = length xs"
  by (simp add: add_prefix_def)

lemma length_sub_prefix [simp]: "length (sub_prefix xs rs) = length xs"
  by (simp add: sub_prefix_def)

lemma nth_add_prefix:
  "j < length xs \<Longrightarrow> add_prefix xs rs ! j = (if j < length rs then xs ! j + rs ! j else xs ! j)"
  by (simp add: add_prefix_def nth_upd_range)

lemma nth_sub_prefix:
  "j < length xs \<Longrightarrow> sub_prefix xs rs ! j = (if j < length rs then xs ! j - rs ! j else xs ! j)"
  by (simp add: sub_prefix_def nth_upd_range)

lemma add_prefix_Nil [simp]: "add_prefix xs [] = xs"
  by (simp add: add_prefix_def upd_range_empty)

lemma sub_prefix_Nil [simp]: "sub_prefix xs [] = xs"
  by (simp add: sub_prefix_def upd_range_empty)

lemma add_sub_prefix [simp]: "add_prefix (sub_prefix xs rs) rs = xs"
  by (intro nth_equalityI) (auto simp: nth_add_prefix nth_sub_prefix)

lemma add_row_length: "add_row xss i js acc = Some acc' \<Longrightarrow> length acc' = length acc"
  by (induction js arbitrary: acc) (auto split: bind_splits)

lemma add_row_upt:
  "i < length xss \<Longrightarrow> m \<le> length (xss ! i) \<Longrightarrow> m \<le> length acc \<Longrightarrow>
   add_row xss i [k..<m] acc = Some (upd_range (+) k m acc (xss ! i))"
proof (induction "m - k" arbitrary: k acc)
  case 0
  then show ?case by (simp add: upd_range_empty)
next
  case (Suc d)
  then have k: "k < m" by simp
  let ?acc = "acc[k := acc ! k + xss ! i ! k]"
  have "add_row xss i [Suc k..<m] ?acc = Some (upd_range (+) (Suc k) m ?acc (xss ! i))"
    using Suc by (intro Suc.hyps(1)) auto
  moreover have "upd_range (+) (Suc k) m ?acc (xss ! i) = upd_range (+) k m acc (xss ! i)"
    using k Suc.prems by (intro upd_range_step) auto
  ultimately show ?case
    using k Suc.prems by (simp add: upt_conv_Cons mat_at_in vec_at_in)
qed

lemma canExecute_in:
  "\<forall>j\<in>set js. j < length nd \<and> j < length w \<Longrightarrow>
   canExecute nd w js = Some (\<forall>j\<in>set js. sint (nd ! j) \<le> sint (w ! j))"
  by (induction js) (auto simp: vec_at_in)

lemma canExecute_True:
  "canExecute nd w js = Some True \<Longrightarrow>
   \<forall>j\<in>set js. j < length nd \<and> j < length w \<and> sint (nd ! j) \<le> sint (w ! j)"
  by (induction js) (auto simp: vec_at_Some split: bind_splits if_splits)

lemma need_row_Some:
  "need_row mx al i js = Some r \<Longrightarrow>
   (\<forall>j\<in>set js. i < length mx \<and> j < length (mx ! i) \<and> i < length al \<and> j < length (al ! i)) \<and>
   r = map (\<lambda>j. mx ! i ! j - al ! i ! j) js"
  by (induction js arbitrary: r) (auto simp: mat_at_Some split: bind_splits)

lemma need_row_in:
  "\<forall>j\<in>set js. i < length mx \<and> j < length (mx ! i) \<and> i < length al \<and> j < length (al ! i) \<Longrightarrow>
   need_row mx al i js = Some (map (\<lambda>j. mx ! i ! j - al ! i ! j) js)"
  by (induction js) (auto simp: mat_at_in)

lemma need_matrix_Some:
  "need_matrix mx al is m = Some nd \<Longrightarrow>
   (\<forall>i\<in>set is. \<forall>j<m. i < length mx \<and> j < length (mx ! i) \<and> i < length al \<and> j < length (al ! i)) \<and>
   nd = map (\<lambda>i. map (\<lambda>j. mx ! i ! j - al ! i ! j) [0..<m]) is"
  by (induction "is" arbitrary: nd) (auto split: bind_splits dest!: need_row_Some)

lemma need_matrix_in:
  "\<forall>i\<in>set is. \<forall>j<m. i < length mx \<and> j < length (mx ! i) \<and> i < length al \<and> j < length (al ! i) \<Longrightarrow>
   need_matrix mx al is m = Some (map (\<lambda>i. map (\<lambda>j. mx ! i ! j - al ! i ! j) [0..<m]) is)"
  by (induction "is") (auto simp: need_row_in)

lemma release_loop_range:
  assumes "n \<le> length rel" and "k < n"
  shows "release_loop p rel [k..<n] (al, av, res) =
    (if 0 \<le> p \<and> nat p < length al \<and> n \<le> length (al ! nat p) \<and> n \<le> length av \<and> n \<le> length res
     then Some (al[nat p := upd_range (-) k n (al ! nat p) rel],
                upd_range (+) k n av rel, upd_range (+) k n res rel)
     else None)"
  using assms(2)
proof (induction "n - k" arbitrary: k al av res)
  case 0
  then show ?case by simp
next
  case (Suc d)
  have upt: "[k..<n] = k # [Suc k..<n]" using Suc.prems by (simp add: upt_conv_Cons)
  have relk: "vec_at rel k = Some (rel ! k)" using Suc.prems assms(1) by (simp add: vec_at_in)
  show ?case
  proof (cases "0 \<le> p \<and> nat p < length al \<and> k < length (al ! nat p) \<and> k < length av \<and> k < length res")
    case False
    then show ?thesis using Suc.prems relk
      by (auto simp: upt vec_at_def vec_at_int_def)
  next
    case True
    let ?row = "al ! nat p"
    let ?al = "al[nat p := ?row[k := ?row ! k - rel ! k]]"
    let ?av = "av[k := av ! k + rel ! k]"
    let ?res = "res[k := res ! k + rel ! k]"
    have step: "release_loop p rel [k..<n] (al, av, res) =
        release_loop p rel [Suc k..<n] (?al, ?av, ?res)"
      using True relk by (simp add: upt vec_at_def vec_at_int_def)
    show ?thesis
    proof (cases "Suc k < n")
      case False
      with Suc.prems have n: "n \<le> Suc k" by simp
      then have "release_loop p rel [Suc k..<n] (?al, ?av, ?res) = Some (?al, ?av, ?res)"
        by simp
      moreover have "upd_range (-) (Suc k) n (?row[k := ?row ! k - rel ! k]) rel = ?row[k := ?row ! k - rel ! k]"
        "upd_range (+) (Suc k) n ?av rel = ?av" "upd_range (+) (Suc k) n ?res rel = ?res"
        using n by (simp_all add: upd_range_empty)
      moreover have "upd_range (-) (Suc k) n (?row[k := ?row ! k - rel ! k]) rel = upd_range (-) k n ?row rel"
        "upd_range (+) (Suc k) n ?av rel = upd_range (+) k n av rel"
        "upd_range (+) (Suc k) n ?res rel = upd_range (+) k n res rel"
        using True Suc.prems by (simp_all add: upd_range_step)
      moreover have "n \<le> length ?row" "n \<le> length av" "n \<le> length res"
        using True n by auto
      ultimately show ?thesis using True by (simp add: step)
    next
      case Suck: True
      then have "d = n - Suc k" using Suc.hyps(2) by simp
      from Suc.hyps(1) [OF this Suck, of ?al ?av ?res]
      have "release_loop p rel [Suc k..<n] (?al, ?av, ?res) =
        (if n \<le> length ?row \<and> n \<le> length av \<and> n \<le> length res
         then Some (al[nat p := upd_range (-) (Suc k) n (?row[k := ?row ! k - rel ! k]) rel],
                upd_range (+) (Suc k) n ?av rel, upd_range (+) (Suc k) n ?res rel)
         else None)"
        using True by simp
      moreover have "upd_range (-) (Suc k) n (?row[k := ?row ! k - rel ! k]) rel = upd_range (-) k n ?row rel"
        "upd_range (+) (Suc k) n ?av rel = upd_range (+) k n av rel"
        "upd_range (+) (Suc k) n ?res rel = upd_range (+) k n res rel"
        using True Suc.prems by (simp_all add: upd_range_step)
      ultimately show ?thesis using True by (simp add: step)
    qed
  qed
qed

lemma tentative_range:
  assumes "n \<le> length req" and "k < n"
  shows "tentative p req [k..<n] (al, av, res) =
    (if 0 \<le> p \<and> nat p < length al \<and> n \<le> length (al ! nat p) \<and> n \<le> length av \<and> n \<le> length res
     then Some (al[nat p := upd_range (+) k n (al ! nat p) req],
                upd_range (-) k n av req, upd_range (-) k n res req)
     else None)"
  using assms(2)
proof (induction "n - k" arbitrary: k al av res)
  case 0
  then show ?case by simp
next
  case (Suc d)
  have upt: "[k..<n] = k # [Suc k..<n]" using Suc.prems by (simp add: upt_conv_Cons)
  have reqk: "vec_at req k = Some (req ! k)" using Suc.prems assms(1) by (simp add: vec_at_in)
  show ?case
  proof (cases "0 \<le> p \<and> nat p < length al \<and> k < length (al ! nat p) \<and> k < length av \<and> k < length res")
    case False
    then show ?thesis using Suc.prems reqk
      by (auto simp: upt vec_at_def vec_at_int_def)
  next
    case True
    let ?row = "al ! nat p"
    let ?al = "al[nat p := ?row[k := ?row ! k + req ! k]]"
    let ?av = "av[k := av ! k - req ! k]"
    let ?res = "res[k := res ! k - req ! k]"
    have step: "tentative p req [k..<n] (al, av, res) =
        tentative p req [Suc k..<n] (?al, ?av, ?res)"
      using True reqk by (simp add: upt vec_at_def vec_at_int_def)
    show ?thesis
    proof (cases "Suc k < n")
      case False
      with Suc.prems have n: "n \<le> Suc k" by simp
      then have "tentative p req [Suc k..<n] (?al, ?av, ?res) = Some (?al, ?av, ?res)"
        by simp
      moreover have "upd_range (+) (Suc k) n (?row[k := ?row ! k + req ! k]) req = ?row[k := ?row ! k + req ! k]"
        "upd_range (-) (Suc k) n ?av req = ?av" "upd_range (-) (Suc k) n ?res req = ?res"
        using n by (simp_all add: upd_range_empty)
      moreover have "upd_range (+) (Suc k) n (?row[k := ?row ! k + req ! k]) req = upd_range (+) k n ?row req"
        "upd_range (-) (Suc k) n ?av req = upd_range (-) k n av req"
        "upd_range (-) (Suc k) n ?res req = upd_range (-) k n res req"
        using True Suc.prems by (simp_all add: upd_range_step)
      moreover have "n \<le> length ?row" "n \<le> length av" "n \<le> length res"
        using True n by auto
      ultimately show ?thesis using True by (simp add: step)
    next
      case Suck: True
      then have "d = n - Suc k" using Suc.hyps(2) by simp
      from Suc.hyps(1) [OF this Suck, of ?al ?av ?res]
      have "tentative p req [Suc k..<n] (?al, ?av, ?res) =
        (if n \<le> length ?row \<and> n \<le> length av \<and> n \<le> length res
         then Some (al[nat p := upd_range (+) (Suc k) n (?row[k := ?row ! k + req ! k]) req],
                upd_range (-) (Suc k) n ?av req, upd_range (-) (Suc k) n ?res req)
         else None)"
        using True by simp
      moreover have "upd_range (+) (Suc k) n (?row[k := ?row ! k + req ! k]) req = upd_range (+) k n ?row req"
        "upd_range (-) (Suc k) n ?av req = upd_range (-) k n av req"
        "upd_range (-) (Suc k) n ?res req = upd_range (-) k n res req"
        using True Suc.prems by (simp_all add: upd_range_step)
      ultimately show ?thesis using True by (simp add: step)
    qed
  qed
qed

lemma add_back_range:
  assumes "n \<le> length req" and "k < n"
  shows "add_back req [k..<n] (av, res) =
    (if n \<le> length av \<and> n \<le> length res
     then Some (upd_range (+) k n av req, upd_range (+) k n res req)
     else None)"
  using assms(2)
proof (induction "n - k" arbitrary: k av res)
  case 0
  then show ?case by simp
next
  case (Suc d)
  have upt: "[k..<n] = k # [Suc k..<n]" using Suc.prems by (simp add: upt_conv_Cons)
  have reqk: "vec_at req k = Some (req ! k)" using Suc.prems assms(1) by (simp add: vec_at_in)
  show ?case
  proof (cases "k < length av \<and> k < length res")
    case False
    then show ?thesis using Suc.prems reqk
      by (auto simp: upt vec_at_def)
  next
    case True
    let ?av = "av[k := av ! k + req ! k]"
    let ?res = "res[k := res ! k + req ! k]"
    have step: "add_back req [k..<n] (av, res) = add_back req [Suc k..<n] (?av, ?res)"
      using True reqk by (simp add: upt vec_at_def)
    have eqs: "upd_range (+) (Suc k) n ?av req = upd_range (+) k n av req"
        "upd_range (+) (Suc k) n ?res req = upd_range (+) k n res req"
      using True Suc.prems by (simp_all add: upd_range_step)
    show ?thesis
    proof (cases "Suc k < n")
      case False
      with Suc.prems have n: "n \<le> Suc k" by simp
      then have "add_back req [Suc k..<n] (?av, ?res) = Some (?av, ?res)"
        by simp
      moreover have "upd_range (+) (Suc k) n ?av req = ?av" "upd_range (+) (Suc k) n ?res req = ?res"
        using n by (simp_all add: upd_range_empty)
      moreover have "n \<le> length av" "n \<le> length res"
        using True n by auto
      ultimately show ?thesis using eqs by (simp add: step)
    next
      case Suck: True
      then have "d = n - Suc k" using Suc.hyps(2) by simp
      from Suc.hyps(1) [OF this Suck, of ?av ?res] eqs
      show ?thesis using True by (simp add: step)
    qed
  qed
qed

lemma tentative_full:
  "tentative p req [0..<length req] (al, av, res) =
    (if req = [] then Some (al, av, res)
     else if 0 \<le> p \<and> nat p < length al \<and> length req \<le> length (al ! nat p) \<and>
             length req \<le> length av \<and> length req \<le> length res
     then Some (al[nat p := add_prefix (al ! nat p) req], sub_prefix av req, sub_prefix res req)
     else None)"
  using tentative_range [of "length req" req 0 p al av res]
  by (auto simp: add_prefix_def sub_prefix_def)

lemma add_back_full:
  "add_back req [0..<length req] (av, res) =
    (if req = [] then Some (av, res)
     else if length req \<le> length av \<and> length req \<le> length res
     then Some (add_prefix av req, add_prefix res req)
     else None)"
  using add_back_range [of "length req" req 0 av res]
  by (auto simp: add_prefix_def)

lemma release_loop_full:
  "release_loop p rel [0..<length rel] (al, av, res) =
    (if rel = [] then Some (al, av, res)
     else if 0 \<le> p \<and> nat p < length al \<and> length rel \<le> length (al ! nat p) \<and>
             length rel \<le> length av \<and> length rel \<le> length res
     then Some (al[nat p := sub_prefix (al ! nat p) rel], add_prefix av rel, add_prefix res rel)
     else None)"
  using release_loop_range [of "length rel" rel 0 p al av res]
  by (auto simp: add_prefix_def sub_prefix_def)

subsection \<open>One pass of the scan\<close>

lemma scan_count:
  "scan need al m ps (safe, work, finished, count) = Some (safe', work', finished', count')
   \<Longrightarrow> count \<le> count' \<and> (finished \<and> \<not> finished' \<longrightarrow> count < count')"
proof (induction ps arbitrary: safe work finished count)
  case Nil
  then show ?case by simp
next
  case (Cons i ps)
  from Cons.prems show ?case
    by (auto split: bind_splits if_splits dest: Cons.IH)
qed

lemma scan_work_length:
  "scan need al m is (safe, work, finished, count) = Some (safe', work', finished', count') \<Longrightarrow>
   length work' = length work \<and> (count < count' \<longrightarrow> m \<le> length work)"
proof (induction "is" arbitrary: safe work finished count)
  case Nil
  then show ?case by simp
next
  case (Cons i "is")
  show ?case
  proof (cases "vec_at safe i = Some False \<and>
      (\<exists>nd. vec_at need i = Some nd \<and> canExecute nd work [0..<m] = Some True)")
    case True
    then obtain nd where nd: "vec_at need i = Some nd" "canExecute nd work [0..<m] = Some True"
      by blast
    have m: "m \<le> length work"
    proof (rule ccontr)
      assume "\<not> m \<le> length work"
      then have "length work \<in> set [0..<m]" by simp
      with canExecute_True [OF nd(2)] show False by blast
    qed
    from Cons.prems True nd obtain w1 where w1: "add_row al i [0..<m] work = Some w1"
      and rest: "scan need al m is (safe[i := True], w1, False, Suc count) =
        Some (safe', work', finished', count')"
      by (auto split: bind_splits)
    from Cons.IH [OF rest] add_row_length [OF w1] m show ?thesis by simp
  next
    case False
    with Cons.prems have "scan need al m is (safe, work, finished, count) =
        Some (safe', work', finished', count')"
      by (auto split: bind_splits if_splits)
    from Cons.IH [OF this] show ?thesis .
  qed
qed

lemma scan_fold:
  "\<forall>i\<in>set is. i < length safe \<and> i < length need \<and> m \<le> length (need ! i) \<and>
      i < length al \<and> m \<le> length (al ! i) \<Longrightarrow> m \<le> length work \<Longrightarrow>
   scan need al m is (safe, work, finished, count) =
     Some (fold (pstep need al m) is (safe, work, finished, count))"
proof (induction "is" arbitrary: safe work finished count)
  case Nil
  then show ?case by simp
next
  case (Cons i "is")
  have can: "canExecute (need ! i) work [0..<m] = Some (fits m (need ! i) work)"
    using Cons.prems by (subst canExecute_in) (auto simp: fits_def)
  have add: "add_row al i [0..<m] work = Some (upd_range (+) 0 m work (al ! i))"
    using Cons.prems by (intro add_row_upt) auto
  show ?case
  proof (cases "\<not> safe ! i \<and> fits m (need ! i) work")
    case True
    have "scan need al m is (safe[i := True], upd_range (+) 0 m work (al ! i), False, Suc count) =
      Some (fold (pstep need al m) is (safe[i := True], upd_range (+) 0 m work (al ! i), False, Suc count))"
      using Cons.prems by (intro Cons.IH) auto
    with True can add Cons.prems show ?thesis
      by (simp add: vec_at_in)
  next
    case False
    have "scan need al m is (safe, work, finished, count) =
      Some (fold (pstep need al m) is (safe, work, finished, count))"
      using Cons.prems by (intro Cons.IH) auto
    with False can add Cons.prems show ?thesis
      by (auto simp: vec_at_in)
  qed
qed

lemma marked_update: "i < n \<Longrightarrow> length safe = n \<Longrightarrow> marked n (safe[i := True]) = insert i (marked n safe)"
  by (auto simp: marked_def nth_list_update)

lemma chain_snoc:
  assumes "chain need al avail m order"
    and "\<forall>j<m. sint (need ! i ! j) \<le> sint (avail ! j) + (\<Sum>q\<leftarrow>order. sint (al ! q ! j))"
  shows "chain need al avail m (order @ [i])"
  unfolding chain_def
proof (intro allI impI)
  fix k j assume k: "k < length (order @ [i])" and j: "j < m"
  show "sint (need ! ((order @ [i]) ! k) ! j) \<le>
      sint (avail ! j) + (\<Sum>q\<leftarrow>take k (order @ [i]). sint (al ! q ! j))"
  proof (cases "k < length order")
    case True
    with assms(1) j show ?thesis by (simp add: chain_def nth_append)
  next
    case False
    with k have "k = length order" by simp
    with assms(2) j show ?thesis by simp
  qed
qed

lemma pstep_inv:
  assumes "i < n" and "m \<le> length avail"
    and "loop_inv need al avail n m order safe work count"
    and "pstep need al m i (safe, work, finished, count) = (safe', work', finished', count')"
  shows "\<exists>order'. loop_inv need al avail n m order' safe' work' count'"
proof (cases "\<not> safe ! i \<and> fits m (need ! i) work")
  case False
  with assms(3,4) show ?thesis by auto
next
  case True
  from assms(3) have len: "length safe = n" "length work = length avail"
    and dist: "distinct order" and set: "set order = marked n safe"
    and cnt: "count = length order"
    by (auto simp: loop_inv_def)
  from True assms(4) have eq: "safe' = safe[i := True]" "work' = upd_range (+) 0 m work (al ! i)"
    "count' = Suc count" by auto
  from True set have notin: "i \<notin> set order" by (simp add: marked_def)
  have sums: "chain need al avail m (order @ [i]) \<and>
      (\<forall>j<m. sint (work' ! j) = sint (avail ! j) + (\<Sum>q\<leftarrow>order @ [i]. sint (al ! q ! j)))"
    if ok: "sums_ok al avail n m"
  proof
    from assms(3) ok have ch: "chain need al avail m order"
      and wk: "\<forall>j<m. sint (work ! j) = sint (avail ! j) + (\<Sum>q\<leftarrow>order. sint (al ! q ! j))"
      by (auto simp: loop_inv_def)
    show "chain need al avail m (order @ [i])"
      using ch True wk by (intro chain_snoc) (auto simp: fits_def)
    show "\<forall>j<m. sint (work' ! j) = sint (avail ! j) + (\<Sum>q\<leftarrow>order @ [i]. sint (al ! q ! j))"
    proof (intro allI impI)
      fix j assume j: "j < m"
      have "distinct (order @ [i])" "set (order @ [i]) \<subseteq> {..<n}"
        using dist notin set assms(1) by (auto simp: marked_def)
      from partial_sum_bounds(2) [OF ok this j]
      have "in_range (sint (work ! j) + sint (al ! i ! j))"
        using wk j by (simp add: add.assoc)
      then have "sint (work ! j + al ! i ! j) = sint (work ! j) + sint (al ! i ! j)"
        by (rule sint_add_fits)
      with wk j len assms(2)
      show "sint (work' ! j) = sint (avail ! j) + (\<Sum>q\<leftarrow>order @ [i]. sint (al ! q ! j))"
        by (simp add: eq nth_upd_range)
    qed
  qed
  have "loop_inv need al avail n m (order @ [i]) safe' work' count'"
    unfolding loop_inv_def
    using len dist set cnt notin assms(1) sums
    by (simp add: eq marked_update)
  then show ?thesis ..
qed

lemma fold_pstep_inv:
  assumes "\<forall>i\<in>set is. i < n" and "m \<le> length avail"
    and "loop_inv need al avail n m order safe work count"
    and "fold (pstep need al m) is (safe, work, finished, count) = (safe', work', finished', count')"
  shows "\<exists>order'. loop_inv need al avail n m order' safe' work' count'"
  using assms
proof (induction "is" arbitrary: order safe work finished count)
  case Nil
  then show ?case by auto
next
  case (Cons i "is")
  obtain s1 w1 f1 c1 where st: "pstep need al m i (safe, work, finished, count) = (s1, w1, f1, c1)"
    by (metis prod_cases4)
  with Cons.prems obtain order1 where "loop_inv need al avail n m order1 s1 w1 c1"
    using pstep_inv [of i n m avail need al order safe work count finished s1 w1 f1 c1] by auto
  moreover from Cons.prems(4) st
  have "fold (pstep need al m) is (s1, w1, f1, c1) = (safe', work', finished', count')"
    by simp
  ultimately show ?case
    using Cons.prems(1,2) by (intro Cons.IH [of order1 s1 w1 c1 f1]) auto
qed

lemma fold_pstep_False:
  "fold (pstep need al m) is (safe, work, False, count) = (safe', work', finished', count')
   \<Longrightarrow> \<not> finished'"
  by (induction "is" arbitrary: safe work count) (auto split: if_splits)

lemma fold_pstep_finished:
  "fold (pstep need al m) is (safe, work, finished, count) = (safe', work', True, count') \<Longrightarrow>
   finished \<and> safe' = safe \<and> work' = work \<and> count' = count \<and>
   (\<forall>i\<in>set is. safe ! i \<or> \<not> fits m (need ! i) work)"
proof (induction "is" arbitrary: safe work finished count)
  case Nil
  then show ?case by simp
next
  case (Cons i "is")
  show ?case
  proof (cases "\<not> safe ! i \<and> fits m (need ! i) work")
    case True
    with Cons.prems have False
      using fold_pstep_False [of need al m "is" "safe[i := True]" "upd_range (+) 0 m work (al ! i)"
          "Suc count" safe' work' True count']
      by simp
    then show ?thesis ..
  next
    case False
    with Cons.prems have "fold (pstep need al m) is (safe, work, finished, count) = (safe', work', True, count')"
      by auto
    from Cons.IH [OF this] False show ?thesis by auto
  qed
qed

subsection \<open>The loop of isSafeState\<close>

lemma safety_loop_inv:
  assumes "n \<le> length need" and "n \<le> length al"
    and "\<forall>i<n. m \<le> length (need ! i) \<and> m \<le> length (al ! i)"
    and "m \<le> length avail"
    and "loop_inv need al avail n m order safe work count"
  shows "\<exists>safe' work' finished' count' order'.
     safety_loop need al n m (safe, work, count) = Some (safe', work', finished', count') \<and>
     loop_inv need al avail n m order' safe' work' count' \<and>
     (finished' \<or> n \<le> count') \<and>
     (finished' \<longrightarrow> (\<forall>i<n. safe' ! i \<or> \<not> fits m (need ! i) work'))"
  using assms(5)
proof (induction "n - count" arbitrary: safe work count order rule: less_induct)
  case less
  from less.prems have len: "length safe = n" "length work = length avail"
    by (auto simp: loop_inv_def)
  obtain s1 w1 f1 c1 where
    fold: "fold (pstep need al m) [0..<n] (safe, work, True, count) = (s1, w1, f1, c1)"
    by (metis prod_cases4)
  have scan: "scan need al m [0..<n] (safe, work, True, count) = Some (s1, w1, f1, c1)"
    using assms(1-4) len fold by (subst scan_fold) auto
  obtain order1 where inv1: "loop_inv need al avail n m order1 s1 w1 c1"
    using fold_pstep_inv [OF _ assms(4) less.prems fold] by auto
  show ?case
  proof (cases "\<not> f1 \<and> c1 < n")
    case True
    with scan have "count < c1" using scan_count [OF scan] by simp
    with True have "n - c1 < n - count" by linarith
    from less.hyps [OF this inv1] scan True show ?thesis
      by (subst safety_loop.simps) simp
  next
    case False
    have "f1 \<longrightarrow> (\<forall>i<n. s1 ! i \<or> \<not> fits m (need ! i) w1)"
      using fold_pstep_finished [of need al m "[0..<n]" safe work True count s1 w1 c1] fold
      by auto
    with False inv1 scan show ?thesis
      by (subst safety_loop.simps) auto
  qed
qed

lemma safety_loop_work_length:
  assumes "safety_loop need al n m (safe, work, count) = Some (safe', work', finished', count')"
    and "count < count'"
  shows "m \<le> length work"
proof -
  from assms(1) obtain s1 w1 f1 c1 where
    scan: "scan need al m [0..<n] (safe, work, True, count) = Some (s1, w1, f1, c1)"
    by (subst (asm) safety_loop.simps) (auto split: option.splits)
  show ?thesis
  proof (cases "\<not> f1 \<and> c1 < n")
    case True
    with scan_count [OF scan] have "count < c1" by simp
    with scan_work_length [OF scan] show ?thesis by simp
  next
    case False
    with assms(1) scan have "c1 = count'"
      by (subst (asm) safety_loop.simps) auto
    with assms(2) scan_work_length [OF scan] show ?thesis by simp
  qed
qed

lemma count_less_iff:
  assumes "loop_inv need al avail n m order safe work count"
  shows "count < n \<longleftrightarrow> (\<exists>i<n. \<not> safe ! i)"
proof -
  from assms have cnt: "count = card (marked n safe)"
    by (auto simp: loop_inv_def distinct_card [symmetric])
  have sub: "marked n safe \<subseteq> {..<n}" by (auto simp: marked_def)
  show ?thesis
  proof (cases "\<forall>i<n. safe ! i")
    case True
    then have "marked n safe = {..<n}" by (auto simp: marked_def)
    with cnt True show ?thesis by simp
  next
    case False
    then have "marked n safe \<noteq> {..<n}" by (auto simp: marked_def)
    with sub have "marked n safe \<subset> {..<n}" by auto
    then have "card (marked n safe) < card {..<n}" by (intro psubset_card_mono) auto
    with cnt False show ?thesis by simp
  qed
qed

lemma verdict_all_marked:
  assumes "loop_inv need al avail n m order safe work count"
  shows "(if count < n then False else list_all id safe) \<longleftrightarrow> (\<forall>i<n. safe ! i)"
proof -
  from assms have "length safe = n" by (simp add: loop_inv_def)
  then have "list_all id safe \<longleftrightarrow> (\<forall>i<n. safe ! i)" by (simp add: list_all_length)
  with count_less_iff [OF assms] show ?thesis by auto
qed

subsection \<open>isSafeState and safe orderings\<close>

lemma numResources_nth: "allocation s \<noteq> [] \<Longrightarrow> numResources s = length (allocation s ! 0)"
  by (cases "allocation s") (auto simp: numResources_def)


lemma nonneg_allocation_nth:
  "nonneg_allocation s \<Longrightarrow> i < length (allocation s) \<Longrightarrow> j < length (allocation s ! i) \<Longrightarrow>
   0 \<le> sint (allocation s ! i ! j)"
  by (auto simp: nonneg_allocation_def list_all_length)

lemma need_mat_value:
  "i < numProcesses s \<Longrightarrow> j < numResources s \<Longrightarrow> sint (need_mat s ! i ! j) = code_need s i j"
  by (simp add: need_mat_def code_need_def)

lemma needs_fit_iff:
  "needs_fit s \<longleftrightarrow> (\<forall>p<numProcesses s. \<forall>r<numResources s. in_range (need_of s p r))"
  by (auto simp: needs_fit_def list_all_iff)

lemma totals_fit_iff: "totals_fit s \<longleftrightarrow> (\<forall>r<numResources s. total s r \<le> INT_MAX)"
  by (auto simp: totals_fit_def list_all_iff)

lemma code_need_fits:
  "needs_fit s \<Longrightarrow> p < numProcesses s \<Longrightarrow> r < numResources s \<Longrightarrow>
   code_need s p r = need_of s p r"
  by (simp add: needs_fit_iff code_need_def need_of_def sint_sub_fits)

lemma code_order_iff:
  "code_order s order \<longleftrightarrow>
     distinct order \<and> set order = {..<numProcesses s} \<and>
     (\<forall>k<length order. \<forall>r<numResources s.
        code_need s (order ! k) r \<le>
          sint (available s ! r) + (\<Sum>q\<leftarrow>take k order. sint (allocation s ! q ! r)))"
  by (simp add: code_order_def work_before_def)


lemma column_sum_rows:
  "(\<Sum>q\<leftarrow>[0..<length al]. sint (al ! q ! r)) = (\<Sum>row\<leftarrow>al. sint ((row :: cint list) ! r))"
proof -
  have "map (\<lambda>q. sint (al ! q ! r)) [0..<length al] = map (\<lambda>row. sint (row ! r)) (map ((!) al) [0..<length al])"
    by simp
  then show ?thesis by (simp only: map_nth)
qed

lemma sums_ok_iff:
  "sums_ok (allocation s) (available s) (numProcesses s) (numResources s) \<longleftrightarrow>
     (\<forall>q<numProcesses s. \<forall>j<numResources s. 0 \<le> sint (allocation s ! q ! j)) \<and> totals_fit s"
  by (simp add: sums_ok_def totals_fit_iff total_def numProcesses_def column_sum_rows add.commute)

lemma sums_okI:
  assumes "in_bounds s" and "nonneg_allocation s" and "totals_fit s"
  shows "sums_ok (allocation s) (available s) (numProcesses s) (numResources s)"
  unfolding sums_ok_iff
proof (intro conjI allI impI)
  fix q j assume "q < numProcesses s" "j < numResources s"
  with assms(1) have "q < length (allocation s)" "j < length (allocation s ! q)"
    by (auto simp: in_bounds_def numProcesses_def)
  with assms(2) show "0 \<le> sint (allocation s ! q ! j)" by (rule nonneg_allocation_nth)
qed (rule assms(3))


lemma in_bounds_cong:
  "in_bounds a \<Longrightarrow> allocation b = allocation a \<Longrightarrow> max_claim b = max_claim a \<Longrightarrow>
   length (available b) = length (available a) \<Longrightarrow> in_bounds b"
  by (simp add: in_bounds_def numProcesses_def numResources_def)

lemma chain_need_mat:
  assumes "set order \<subseteq> {..<numProcesses s}"
  shows "chain (need_mat s) (allocation s) (available s) (numResources s) order \<longleftrightarrow>
     (\<forall>k<length order. \<forall>r<numResources s.
        code_need s (order ! k) r \<le>
          sint (available s ! r) + (\<Sum>q\<leftarrow>take k order. sint (allocation s ! q ! r)))"
proof -
  have "sint (need_mat s ! (order ! k) ! r) = code_need s (order ! k) r"
    if "k < length order" "r < numResources s" for k r
  proof -
    from that assms have "order ! k < numProcesses s" by (auto dest: nth_mem)
    with that show ?thesis by (simp add: need_mat_value)
  qed
  then show ?thesis by (auto simp: chain_def)
qed

lemma fits_need_mat:
  "i < numProcesses s \<Longrightarrow>
   fits (numResources s) (need_mat s ! i) w \<longleftrightarrow>
     (\<forall>r<numResources s. code_need s i r \<le> sint (w ! r))"
  by (simp add: fits_def need_mat_value)

lemma safety_scan_in_bounds:
  assumes "in_bounds s"
  shows "\<exists>safe work finished count order.
     safety_scan s = Some (safe, work, finished, count) \<and>
     loop_inv (need_mat s) (allocation s) (available s) (numProcesses s) (numResources s)
       order safe work count \<and>
     (finished \<or> numProcesses s \<le> count) \<and>
     (finished \<longrightarrow> (\<forall>i<numProcesses s. safe ! i \<or>
        \<not> fits (numResources s) (need_mat s ! i) work))"
proof -
  let ?n = "numProcesses s" and ?m = "numResources s"
  from assms have ne: "allocation s \<noteq> []" by (simp add: in_bounds_def)
  then have m: "?m = length (allocation s ! 0)" by (rule numResources_nth)
  have need: "need_matrix (max_claim s) (allocation s) [0..<length (allocation s)] ?m =
      Some (need_mat s)"
    unfolding need_mat_def numProcesses_def
    using assms by (intro need_matrix_in) (auto simp: in_bounds_def numProcesses_def)
  have scan: "safety_scan s =
      safety_loop (need_mat s) (allocation s) ?n ?m (replicate ?n False, available s, 0)"
    using ne need by (simp add: safety_scan_def vec_at_in m [symmetric] numProcesses_def Let_def)
  have init: "loop_inv (need_mat s) (allocation s) (available s) ?n ?m []
      (replicate ?n False) (available s) 0"
    by (auto simp: loop_inv_def marked_def chain_def)
  have "\<forall>i<?n. ?m \<le> length (need_mat s ! i) \<and> ?m \<le> length (allocation s ! i)"
  proof (intro allI impI conjI)
    fix i assume i: "i < ?n"
    then show "?m \<le> length (need_mat s ! i)" by (simp add: need_mat_def)
    show "?m \<le> length (allocation s ! i)"
    proof (rule ccontr)
      assume "\<not> ?m \<le> length (allocation s ! i)"
      then have "length (allocation s ! i) < ?m" by simp
      with assms i show False by (auto simp: in_bounds_def)
    qed
  qed
  moreover have "?n \<le> length (need_mat s)" "?n \<le> length (allocation s)"
    by (simp_all add: need_mat_def numProcesses_def)
  moreover from assms have "?m \<le> length (available s)" by (simp add: in_bounds_def)
  ultimately show ?thesis
    using safety_loop_inv [of ?n "need_mat s" "allocation s" ?m "available s" "[]"
        "replicate ?n False" "available s" 0] init scan
    by simp
qed

lemma isSafeState_in_bounds:
  assumes "in_bounds s"
  shows "\<exists>safe work finished count order.
     safety_scan s = Some (safe, work, finished, count) \<and>
     isSafeState s = Some (\<forall>i<numProcesses s. safe ! i) \<and>
     loop_inv (need_mat s) (allocation s) (available s) (numProcesses s) (numResources s)
       order safe work count \<and>
     (finished \<or> numProcesses s \<le> count) \<and>
     (finished \<longrightarrow> (\<forall>i<numProcesses s. safe ! i \<or>
        \<not> fits (numResources s) (need_mat s ! i) work))"
proof -
  from safety_scan_in_bounds [OF assms] obtain safe work finished count order where
    scan: "safety_scan s = Some (safe, work, finished, count)"
    and inv: "loop_inv (need_mat s) (allocation s) (available s) (numProcesses s)
       (numResources s) order safe work count"
    and rest: "finished \<or> numProcesses s \<le> count"
      "finished \<longrightarrow> (\<forall>i<numProcesses s. safe ! i \<or>
        \<not> fits (numResources s) (need_mat s ! i) work)"
    by blast
  have "isSafeState s = Some (\<forall>i<numProcesses s. safe ! i)"
    using scan verdict_all_marked [OF inv]
    by (simp add: isSafeState_def numProcesses_def)
  with scan inv rest show ?thesis by blast
qed

lemma isSafeState_True_in_bounds:
  assumes "isSafeState s = Some True"
  shows "in_bounds s"
proof -
  from assms obtain safe work finished count where
    scan: "safety_scan s = Some (safe, work, finished, count)"
    and cnt: "\<not> count < length (allocation s)"
    by (auto simp: isSafeState_def split: bind_splits if_splits)
  from scan obtain row0 need where row0: "vec_at (allocation s) 0 = Some row0"
    and need: "need_matrix (max_claim s) (allocation s) [0..<length (allocation s)] (length row0)
        = Some need"
    and loop: "safety_loop need (allocation s) (length (allocation s)) (length row0)
        (replicate (length (allocation s)) False, available s, 0) =
        Some (safe, work, finished, count)"
    by (auto simp: safety_scan_def Let_def split: bind_splits)
  from row0 have ne: "allocation s \<noteq> []" and r0: "row0 = allocation s ! 0"
    by (auto simp: vec_at_Some)
  then have m: "numResources s = length row0" by (simp add: numResources_nth)
  from ne cnt have "0 < count" by (cases "allocation s") auto
  from safety_loop_work_length [OF loop this] have "numResources s \<le> length (available s)"
    by (simp add: m)
  moreover from need_matrix_Some [OF need]
  have "\<forall>i<numProcesses s. \<forall>j<numResources s.
        i < length (max_claim s) \<and> j < length (max_claim s ! i) \<and> j < length (allocation s ! i)"
    by (auto simp: m numProcesses_def)
  ultimately show ?thesis using ne by (simp add: in_bounds_def)
qed

lemma isSafeState_fields:
  "allocation a = allocation b \<Longrightarrow> max_claim a = max_claim b \<Longrightarrow> available a = available b \<Longrightarrow>
   isSafeState a = isSafeState b"
  by (simp add: isSafeState_def safety_scan_def)

lemma isSafeState_sound:
  assumes "in_bounds s"
    and "sums_ok (allocation s) (available s) (numProcesses s) (numResources s)"
    and "isSafeState s = Some True"
  shows "\<exists>order. code_order s order"
proof -
  from isSafeState_in_bounds [OF assms(1)] obtain safe work count order where
    res: "isSafeState s = Some (\<forall>i<numProcesses s. safe ! i)"
    and inv: "loop_inv (need_mat s) (allocation s) (available s) (numProcesses s)
       (numResources s) order safe work count"
    by blast
  from res assms(3) have all: "\<forall>i<numProcesses s. safe ! i" by simp
  from inv assms(2) have "distinct order" and set: "set order = marked (numProcesses s) safe"
    and ch: "chain (need_mat s) (allocation s) (available s) (numResources s) order"
    by (auto simp: loop_inv_def)
  from set all have set': "set order = {..<numProcesses s}" by (auto simp: marked_def)
  with ch have "\<forall>k<length order. \<forall>r<numResources s.
        code_need s (order ! k) r \<le>
          sint (available s ! r) + (\<Sum>q\<leftarrow>take k order. sint (allocation s ! q ! r))"
    by (subst (asm) chain_need_mat) auto
  with \<open>distinct order\<close> set' have "code_order s order" by (simp add: code_order_iff)
  then show ?thesis ..
qed

lemma isSafeState_complete:
  assumes "in_bounds s"
    and ok: "sums_ok (allocation s) (available s) (numProcesses s) (numResources s)"
    and "code_order s order0"
  shows "isSafeState s = Some True"
proof -
  let ?n = "numProcesses s" and ?m = "numResources s"
  from isSafeState_in_bounds [OF assms(1)] obtain safe work finished count order where
    res: "isSafeState s = Some (\<forall>i<?n. safe ! i)"
    and inv: "loop_inv (need_mat s) (allocation s) (available s) ?n ?m order safe work count"
    and exit: "finished \<or> ?n \<le> count"
    and stuck: "finished \<longrightarrow> (\<forall>i<?n. safe ! i \<or> \<not> fits ?m (need_mat s ! i) work)"
    by blast
  from inv ok have dist: "distinct order" and set: "set order = marked ?n safe"
    and cnt: "count = length order"
    and wk: "\<forall>j<?m. sint (work ! j) =
        sint (available s ! j) + (\<Sum>q\<leftarrow>order. sint (allocation s ! q ! j))"
    by (auto simp: loop_inv_def)
  from assms(3) have d0: "distinct order0" and s0: "set order0 = {..<?n}"
    and c0: "\<forall>k<length order0. \<forall>r<?m.
        code_need s (order0 ! k) r \<le>
          sint (available s ! r) + (\<Sum>q\<leftarrow>take k order0. sint (allocation s ! q ! r))"
    by (auto simp: code_order_iff)
  have "\<forall>i<?n. safe ! i"
  proof (rule ccontr)
    assume "\<not> (\<forall>i<?n. safe ! i)"
    then obtain i where i: "i < ?n" "\<not> safe ! i" by blast
    with s0 have "i \<in> set order0" by simp
    then obtain k0 where "k0 < length order0" "order0 ! k0 = i" by (auto simp: in_set_conv_nth)
    with i have "\<exists>k. k < length order0 \<and> \<not> safe ! (order0 ! k)" by blast
    then obtain k where k: "k < length order0" "\<not> safe ! (order0 ! k)"
      and least: "\<forall>k'<k. \<not> (k' < length order0 \<and> \<not> safe ! (order0 ! k'))"
      using exists_least_iff [of "\<lambda>k. k < length order0 \<and> \<not> safe ! (order0 ! k)"] by blast
    let ?q = "order0 ! k"
    from k s0 have q: "?q < ?n" using nth_mem [of k order0] by auto
    have sub: "set (take k order0) \<subseteq> set order"
    proof
      fix x assume "x \<in> set (take k order0)"
      then obtain k' where k': "k' < k" "k' < length order0" "x = order0 ! k'"
        by (auto simp: in_set_conv_nth)
      with least have "safe ! x" by auto
      moreover from k' s0 have "x < ?n" using nth_mem [of k' order0] by auto
      ultimately show "x \<in> set order" by (simp add: set marked_def)
    qed
    have card_lt: "count < ?n"
    proof -
      from set have "set order \<subseteq> {..<?n}" by (auto simp: marked_def)
      moreover from q k set have "?q \<notin> set order" by (simp add: marked_def)
      ultimately have "set order \<subset> {..<?n}" using q by auto
      then have "card (set order) < card {..<?n}" by (intro psubset_card_mono) auto
      with dist cnt show ?thesis by (simp add: distinct_card)
    qed
    with exit have finished by simp
    with stuck q k have "\<not> fits ?m (need_mat s ! ?q) work" by auto
    then obtain r where r: "r < ?m" "\<not> code_need s ?q r \<le> sint (work ! r)"
      using q by (auto simp: fits_need_mat)
    have nonneg: "\<forall>y\<in>set order. 0 \<le> sint (allocation s ! y ! r)"
    proof
      fix y assume "y \<in> set order"
      with set have y: "y < ?n" by (simp add: marked_def)
      with ok r show "0 \<le> sint (allocation s ! y ! r)" by (simp add: sums_ok_def)
    qed
    have "code_need s ?q r \<le>
        sint (available s ! r) + (\<Sum>q\<leftarrow>take k order0. sint (allocation s ! q ! r))"
      using c0 k r by blast
    also have "(\<Sum>q\<leftarrow>take k order0. sint (allocation s ! q ! r)) \<le>
        (\<Sum>q\<leftarrow>order. sint (allocation s ! q ! r))"
      using d0 dist sub nonneg by (intro sum_list_subset_le) auto
    finally have "code_need s ?q r \<le> sint (work ! r)" using wk r by simp
    with r show False by simp
  qed
  with res show ?thesis by simp
qed


lemma numResources_update:
  "length row = length (allocation s ! p) \<Longrightarrow> allocation s' = (allocation s)[p := row] \<Longrightarrow>
   numResources s' = numResources s"
  by (cases "allocation s"; cases p) (auto simp: numResources_def)

lemma code_order_mono:
  assumes "code_order a order" and "allocation b = allocation a" and "max_claim b = max_claim a"
    and "\<forall>r<numResources a. sint (available a ! r) \<le> sint (available b ! r)"
  shows "code_order b order"
proof -
  have n: "numProcesses b = numProcesses a" and m: "numResources b = numResources a"
    using assms(2) by (simp_all add: numProcesses_def numResources_def)
  from assms(1) have dist: "distinct order" and set: "set order = {..<numProcesses a}"
    and ch: "\<forall>k<length order. \<forall>r<numResources a. code_need a (order ! k) r \<le>
        sint (available a ! r) + (\<Sum>q\<leftarrow>take k order. sint (allocation a ! q ! r))"
    by (simp_all add: code_order_iff)
  have "code_need b (order ! k) r \<le>
      sint (available b ! r) + (\<Sum>q\<leftarrow>take k order. sint (allocation b ! q ! r))"
    if "k < length order" "r < numResources a" for k r
  proof -
    have "code_need b (order ! k) r = code_need a (order ! k) r"
      using assms(2,3) by (simp add: code_need_def)
    moreover from ch that have "code_need a (order ! k) r \<le>
        sint (available a ! r) + (\<Sum>q\<leftarrow>take k order. sint (allocation a ! q ! r))" by blast
    moreover from assms(4) that have "sint (available a ! r) \<le> sint (available b ! r)" by blast
    ultimately show ?thesis unfolding assms(2) by linarith
  qed
  with dist set show ?thesis by (simp add: code_order_iff n m)
qed

lemma sum_list_minus_one:
  fixes f g :: "nat \<Rightarrow> int"
  assumes "distinct xs" and "\<forall>x\<in>set xs. g x = f x - (if x = p then c else 0)"
  shows "(\<Sum>x\<leftarrow>xs. g x) = (\<Sum>x\<leftarrow>xs. f x) - (if p \<in> set xs then c else 0)"
  using assms by (induction xs) auto

lemma nth_notin_take: "distinct xs \<Longrightarrow> k < length xs \<Longrightarrow> xs ! k \<notin> set (take k xs)"
  by (auto simp: in_set_conv_nth nth_eq_iff_index_eq)

lemma code_order_release:
  assumes so: "code_order s order"
    and n: "numProcesses s' = numProcesses s" and m: "numResources s' = numResources s"
    and d0: "\<forall>r. 0 \<le> d r"
    and alq: "\<forall>q<numProcesses s. \<forall>r<numResources s.
        sint (allocation s' ! q ! r) = sint (allocation s ! q ! r) - (if q = p then d r else 0)"
    and ndq: "\<forall>q<numProcesses s. \<forall>r<numResources s.
        code_need s' q r \<le> code_need s q r + (if q = p then d r else 0)"
    and avr: "\<forall>r<numResources s. sint (available s' ! r) = sint (available s ! r) + d r"
  shows "code_order s' order"
proof -
  let ?n = "numProcesses s" and ?m = "numResources s"
  from so have dist: "distinct order" and set: "set order = {..<?n}"
    and ch: "\<forall>k<length order. \<forall>r<?m.
        code_need s (order ! k) r \<le>
          sint (available s ! r) + (\<Sum>q\<leftarrow>take k order. sint (allocation s ! q ! r))"
    by (auto simp: code_order_iff)
  have "code_need s' (order ! k) r \<le>
      sint (available s' ! r) + (\<Sum>q\<leftarrow>take k order. sint (allocation s' ! q ! r))"
    if k: "k < length order" and r: "r < ?m" for k r
  proof -
    let ?q = "order ! k"
    from k set have q: "?q < ?n" using nth_mem [of k order] by auto
    have sub: "\<forall>x\<in>set (take k order). x < ?n"
      using set by (auto dest: in_set_takeD)
    have sum: "(\<Sum>q\<leftarrow>take k order. sint (allocation s' ! q ! r)) =
        (\<Sum>q\<leftarrow>take k order. sint (allocation s ! q ! r)) -
        (if p \<in> set (take k order) then d r else 0)"
      using dist sub r alq by (intro sum_list_minus_one) auto
    have nd: "code_need s' ?q r \<le> code_need s ?q r + (if ?q = p then d r else 0)"
      using q r ndq by blast
    have av: "sint (available s' ! r) = sint (available s ! r) + d r"
      using avr r by blast
    from ch k r have base: "code_need s ?q r \<le>
        sint (available s ! r) + (\<Sum>q\<leftarrow>take k order. sint (allocation s ! q ! r))" by blast
    show ?thesis
    proof (cases "?q = p")
      case True
      with dist k have "p \<notin> set (take k order)" using nth_notin_take [of order k] by simp
      then have "(\<Sum>q\<leftarrow>take k order. sint (allocation s' ! q ! r)) =
          (\<Sum>q\<leftarrow>take k order. sint (allocation s ! q ! r))" using sum by simp
      moreover have "code_need s' ?q r \<le> code_need s ?q r + d r" using nd True by simp
      ultimately show ?thesis using base av by linarith
    next
      case False
      then have "code_need s' ?q r \<le> code_need s ?q r" using nd by simp
      moreover have "(\<Sum>q\<leftarrow>take k order. sint (allocation s ! q ! r)) - d r \<le>
          (\<Sum>q\<leftarrow>take k order. sint (allocation s' ! q ! r))" using sum d0 by simp
      ultimately show ?thesis using base av by linarith
    qed
  qed
  with dist set show ?thesis by (simp add: code_order_iff n m)
qed

subsection \<open>The operations in closed form\<close>

lemma BankersAlgorithm_fields:
  "BankersAlgorithm al mx av = Some b \<Longrightarrow>
   allocation b = al \<and> max_claim b = mx \<and> available b = av \<and>
   completed b = replicate (length al) False"
  by (auto simp: BankersAlgorithm_def Let_def split: bind_splits)

lemma requestResources_granted:
  assumes "requestResources s p req = Some (True, s')"
  shows "\<exists>tb. BankersAlgorithm ((allocation s)[nat p := add_prefix (allocation s ! nat p) req])
            (max_claim s) (sub_prefix (available s) req) = Some tb \<and>
          isSafeState tb = Some True \<and>
          s' = s\<lparr>allocation := (allocation s)[nat p := add_prefix (allocation s ! nat p) req],
                 available := available s, resources := resources s,
                 completed := (completed s)[nat p := True]\<rparr> \<and>
          0 \<le> p \<and> nat p < length (completed s) \<and>
          (req \<noteq> [] \<longrightarrow> nat p < length (allocation s) \<and>
             length req \<le> length (allocation s ! nat p) \<and> length req \<le> length (available s))"
proof (cases "req = []")
  case True
  with assms show ?thesis
    by (auto simp: requestResources_def set_completed_def split: bind_splits if_splits)
next
  case False
  with assms show ?thesis
    by (auto simp: requestResources_def set_completed_def tentative_full add_back_full
        split: bind_splits if_splits)
qed

lemma releaseResources_Some:
  assumes "releaseResources s p rel = Some s'"
  shows "s' = s\<lparr>allocation := (allocation s)[nat p := sub_prefix (allocation s ! nat p) rel],
                 available := add_prefix (available s) rel,
                 resources := add_prefix (resources s) rel,
                 completed := (completed s)[nat p := False]\<rparr> \<and>
          0 \<le> p \<and> nat p < length (completed s) \<and>
          (rel \<noteq> [] \<longrightarrow> nat p < length (allocation s) \<and>
             length rel \<le> length (allocation s ! nat p) \<and> length rel \<le> length (available s))"
proof (cases "rel = []")
  case True
  with assms show ?thesis
    by (auto simp: releaseResources_def set_completed_def split: bind_splits if_splits)
next
  case False
  with assms show ?thesis
    by (auto simp: releaseResources_def set_completed_def release_loop_full
        split: bind_splits if_splits)
qed

lemma sum_list_row_update:
  fixes f :: "'a \<Rightarrow> int"
  assumes "p < length al"
  shows "(\<Sum>row\<leftarrow>al[p := row']. f row) = (\<Sum>row\<leftarrow>al. f row) - f (al ! p) + f row'"
  using assms
proof (induction al arbitrary: p)
  case Nil
  then show ?case by simp
next
  case (Cons a al)
  then show ?case by (cases p) auto
qed

lemma total_release:
  assumes "releaseResources s p rel = Some s'"
    and "r < length (available s)" and "list_all (\<lambda>row. r < length row) (allocation s)"
    and "release_fits s p rel r"
  shows "total s' r = total s r"
proof (cases "rel = []")
  case True
  with releaseResources_Some [OF assms(1)] show ?thesis by (simp add: total_def)
next
  case False
  let ?p = "nat p"
  from releaseResources_Some [OF assms(1)] False
  have al: "allocation s' = (allocation s)[?p := sub_prefix (allocation s ! ?p) rel]"
    and av: "available s' = add_prefix (available s) rel"
    and p: "?p < length (allocation s)"
    by simp_all
  from assms(3) p have r: "r < length (allocation s ! ?p)" by (simp add: list_all_length)
  have "sint (sub_prefix (allocation s ! ?p) rel ! r) + sint (add_prefix (available s) rel ! r) =
      sint (allocation s ! ?p ! r) + sint (available s ! r)"
    using assms(2,4) r
    by (auto simp: release_fits_def nth_sub_prefix nth_add_prefix sint_sub_fits sint_add_fits)
  with p show ?thesis
    by (simp add: total_def al av sum_list_row_update)
qed

lemma total_grant:
  assumes "requestResources s p req = Some (True, s')"
    and "r < length (available s)" and "list_all (\<lambda>row. r < length row) (allocation s)"
    and "grant_fits s p req r"
  shows "total s' r = total s r + (if r < length req then sint (req ! r) else 0)"
proof (cases "req = []")
  case True
  with requestResources_granted [OF assms(1)] show ?thesis by (auto simp: total_def)
next
  case False
  let ?p = "nat p"
  from requestResources_granted [OF assms(1)] False
  have al: "allocation s' = (allocation s)[?p := add_prefix (allocation s ! ?p) req]"
    and av: "available s' = available s"
    and p: "?p < length (allocation s)"
    by auto
  from assms(3) p have r: "r < length (allocation s ! ?p)" by (simp add: list_all_length)
  have "sint (add_prefix (allocation s ! ?p) req ! r) =
      sint (allocation s ! ?p ! r) + (if r < length req then sint (req ! r) else 0)"
    using assms(4) r by (auto simp: grant_fits_def nth_add_prefix sint_add_fits)
  with p show ?thesis
    by (simp add: total_def al av sum_list_row_update)
qed

subsection \<open>The checks of a request\<close>

lemma sint_add_le: "0 \<le> sint b \<Longrightarrow> sint (a + b :: cint) \<le> sint a + sint b"
proof (cases "sint a + sint b \<le> INT_MAX")
  case True
  assume "0 \<le> sint b"
  with True sint_in_range [of a] have "in_range (sint a + sint b)" by (simp add: in_range_def)
  then show ?thesis by (simp add: sint_add_fits)
next
  case False
  with sint_in_range [of "a + b"] show ?thesis by (simp add: in_range_def)
qed

lemma check_request_True:
  "check_request s p req js = Some True \<Longrightarrow>
   \<forall>i\<in>set js. sint (req ! i) \<le> code_need s (nat p) i \<and> sint (req ! i) \<le> sint (available s ! i)"
proof (induction js)
  case Nil
  then show ?case by simp
next
  case (Cons j js)
  from Cons.prems show ?case
    by (auto simp: vec_at_Some vec_at_int_def code_need_def split: bind_splits if_splits
        dest: Cons.IH)
qed

lemma requestResources_checked:
  assumes "requestResources s p req = Some (True, s')"
  shows "\<forall>i<length req. sint (req ! i) \<le> code_need s (nat p) i \<and>
                          sint (req ! i) \<le> sint (available s ! i)"
proof -
  from assms have "check_request s p req [0..<length req] = Some True"
    by (auto simp: requestResources_def split: bind_splits if_splits)
  from check_request_True [OF this] show ?thesis by simp
qed

lemma sint_sub_sub_le:
  assumes "0 \<le> sint z"
  shows "sint (x - (y - z) :: cint) \<le> sint (x - y) + sint z"
proof -
  have "x - (y - z) = (x - y) + z" by (simp add: algebra_simps)
  then show ?thesis using sint_add_le [OF assms, of "x - y"] by (simp only:)
qed

section \<open>The properties\<close>

subsection \<open>C1: a granted request and safety\<close>

text \<open>
  C1. After a granted request the state is safe, provided that no entry of
  \<^verbatim>\<open>allocation\<close> and no entry of the demand is negative and that the arithmetic stays
  within the range of \<^verbatim>\<open>int\<close>: every need \<^verbatim>\<open>max[p][r] - allocation[p][r]\<close> of the state
  before the call is within the range, and in the state the call leaves no total
  \<^verbatim>\<open>available[r]\<close> plus the sum of \<^verbatim>\<open>allocation[p][r]\<close> over all processes exceeds
  \<open>INT_MAX\<close>. If \<^verbatim>\<open>requestResources\<close> returns true on such a state and demand, then
  \<^verbatim>\<open>isSafeState\<close> returns true on the state the call leaves. The call checked the state
  with \<^verbatim>\<open>available - demand\<close> and leaves the state with \<^verbatim>\<open>available\<close> itself
  (lines 77-81), which is no smaller.
\<close>

theorem grant_keeps_safe:
  assumes "requestResources s processId demand = Some (True, s')"
    and "nonneg_allocation s" and "nonneg demand"
    and "needs_fit s" and "totals_fit s'"
  shows "isSafeState s' = Some True"
proof -
  let ?p = "nat processId"
  let ?al = "(allocation s)[?p := add_prefix (allocation s ! ?p) demand]"
  from requestResources_granted [OF assms(1)] obtain tb where
    tb: "BankersAlgorithm ?al (max_claim s) (sub_prefix (available s) demand) = Some tb"
    and safe: "isSafeState tb = Some True"
    and s': "s' = s\<lparr>allocation := ?al, available := available s, resources := resources s,
                 completed := (completed s)[?p := True]\<rparr>"
    and bounds: "demand \<noteq> [] \<longrightarrow> ?p < length (allocation s) \<and>
       length demand \<le> length (allocation s ! ?p) \<and> length demand \<le> length (available s)"
    by blast
  from BankersAlgorithm_fields [OF tb] have f: "allocation tb = ?al" "max_claim tb = max_claim s"
    "available tb = sub_prefix (available s) demand" by simp_all
  have f': "allocation s' = allocation tb" "max_claim s' = max_claim tb"
    "available s' = available s" by (simp_all add: s' f)
  have inb: "in_bounds tb" using safe by (rule isSafeState_True_in_bounds)
  have inb': "in_bounds s'"
    using inb f'(1,2) by (rule in_bounds_cong) (simp add: f' f)
  have n: "numProcesses s' = numProcesses s" "numProcesses tb = numProcesses s"
    by (simp_all add: numProcesses_def f f')
  have m': "numResources s' = numResources s"
    by (rule numResources_update [of _ s ?p]) (simp_all add: f f')
  have m: "numResources tb = numResources s"
    by (rule numResources_update [of _ s ?p]) (simp_all add: f)
  have avlen: "numResources s \<le> length (available s)"
    using inb by (simp add: in_bounds_def m f)
  have dem: "\<forall>r<length demand. 0 \<le> sint (demand ! r)"
    using assms(3) by (simp add: nonneg_def list_all_length)
  note chk = requestResources_checked [OF assms(1)]
  have entry: "0 \<le> sint (allocation tb ! q ! r)"
    if q: "q < numProcesses s" and r: "r < numResources s" for q r
  proof -
    from q have ql: "q < length (allocation s)" by (simp add: numProcesses_def)
    from inb q r have "r < length (allocation tb ! q)" by (simp add: in_bounds_def n m)
    with ql have rl: "r < length (allocation s ! q)"
      by (cases "q = ?p") (simp_all add: f)
    from assms(2) ql rl have a0: "0 \<le> sint (allocation s ! q ! r)" by (rule nonneg_allocation_nth)
    show ?thesis
    proof (cases "q = ?p \<and> r < length demand")
      case True
      with chk have "sint (demand ! r) \<le> code_need s ?p r" by simp
      also have "\<dots> = need_of s ?p r" using assms(4) q r True by (simp add: code_need_fits)
      finally have "sint (allocation s ! ?p ! r) + sint (demand ! r) \<le> sint (max_claim s ! ?p ! r)"
        by (simp add: need_of_def)
      moreover from dem True have d0: "0 \<le> sint (demand ! r)" by simp
      moreover from a0 True have "0 \<le> sint (allocation s ! ?p ! r)" by simp
      ultimately have "in_range (sint (allocation s ! ?p ! r) + sint (demand ! r))"
        using sint_in_range [of "max_claim s ! ?p ! r"] by (simp add: in_range_def INT_MIN_def)
      then have "sint (allocation s ! ?p ! r + demand ! r) =
          sint (allocation s ! ?p ! r) + sint (demand ! r)" by (rule sint_add_fits)
      with True ql rl a0 d0 show ?thesis by (simp add: f nth_add_prefix)
    next
      case False
      with ql rl a0 show ?thesis by (cases "q = ?p") (simp_all add: f nth_add_prefix)
    qed
  qed
  have avail: "sint (available tb ! r) \<le> sint (available s ! r)" if r: "r < numResources s" for r
  proof (cases "r < length demand")
    case True
    with chk dem have "0 \<le> sint (demand ! r)" "sint (demand ! r) \<le> sint (available s ! r)"
      by simp_all
    with sint_in_range [of "available s ! r"]
    have "in_range (sint (available s ! r) - sint (demand ! r))"
      by (simp add: in_range_def INT_MIN_def)
    then have "sint (available s ! r - demand ! r) = sint (available s ! r) - sint (demand ! r)"
      by (rule sint_sub_fits)
    with True r avlen \<open>0 \<le> sint (demand ! r)\<close> show ?thesis by (simp add: f nth_sub_prefix)
  next
    case False
    with r avlen show ?thesis by (simp add: f nth_sub_prefix)
  qed
  have tot: "totals_fit tb"
    unfolding totals_fit_iff
  proof (intro allI impI)
    fix r assume "r < numResources tb"
    then have r: "r < numResources s" by (simp add: m)
    with assms(5) have "total s' r \<le> INT_MAX" by (simp add: totals_fit_iff m')
    with avail [OF r] show "total tb r \<le> INT_MAX" by (simp add: total_def f')
  qed
  have ok: "sums_ok (allocation tb) (available tb) (numProcesses tb) (numResources tb)"
    unfolding sums_ok_iff using entry tot by (simp add: n m)
  have ok': "sums_ok (allocation s') (available s') (numProcesses s') (numResources s')"
    unfolding sums_ok_iff using entry assms(5) by (simp add: n m' f')
  from isSafeState_sound [OF inb ok safe] obtain order where order: "code_order tb order" ..
  have "\<forall>r<numResources tb. sint (available tb ! r) \<le> sint (available s' ! r)"
    using avail by (simp add: m f')
  with order f'(1,2) have "code_order s' order" by (rule code_order_mono)
  with inb' ok' show ?thesis by (rule isSafeState_complete)
qed

text \<open>The theorem at the request of line 236.\<close>

theorem grant_keeps_safe_witness:
  "requestResources scenario0 1 [1, 0, 2] = Some (True, scenario1) \<and>
   nonneg_allocation scenario0 \<and> nonneg [1, 0, 2] \<and>
   needs_fit scenario0 \<and> totals_fit scenario1 \<and>
   isSafeState scenario1 = Some True"
proof -
  have g: "requestResources scenario0 1 [1, 0, 2] = Some (True, scenario1)" by code_simp
  have a: "nonneg_allocation scenario0" by code_simp
  have d: "nonneg [1, 0, 2]" by code_simp
  have n: "needs_fit scenario0" by code_simp
  have t: "totals_fit scenario1" by code_simp
  from grant_keeps_safe [OF g a d n t] g a d n t show ?thesis by (intro conjI)
qed

text \<open>
  Without any one of the provisos a grant can leave an unsafe state. With the demand
  \<open>-1\<close> the call checks the state with \<^verbatim>\<open>available = [3]\<close> and leaves
  \<^verbatim>\<open>available = [2]\<close>, where the need of 3 does not fit. After process 0 released 2
  units it never held, process 1 is granted 1 unit: the check marks process 1 first,
  but in the state the call leaves process 0 fits first and takes the work down to 0.
  With \<^verbatim>\<open>available = [2147483647]\<close> a grant of 1 unit to process 0 is checked with the
  work 2147483646, but in the state it leaves line 153 takes the work from 2147483647
  to -2147483648, and the need of 5 of process 1 does not fit. And with a need of
  process 0 that line 44 computes as 2 (\<open>-2147483647 - 2147483647\<close> is beyond the
  range), a grant of 1 unit takes its allocation from 2147483647 to -2147483648
  (line 58): the check marks process 1 first, but in the state the call leaves
  process 0 fits first and takes the work from 1 to -2147483647.
\<close>

theorem grant_unsafe_counterexample:
  "BankersAlgorithm [[1]] [[3]] [2] =
     Some \<lparr>allocation = [[1]], max_claim = [[3]], available = [2], resources = [1],
           completed = [False]\<rparr> \<and>
   requestResources
     \<lparr>allocation = [[1]], max_claim = [[3]], available = [2], resources = [1],
      completed = [False]\<rparr> 0 [- 1] =
     Some (True, \<lparr>allocation = [[0]], max_claim = [[3]], available = [2], resources = [1],
                  completed = [True]\<rparr>) \<and>
   isSafeState \<lparr>allocation = [[0]], max_claim = [[3]], available = [2], resources = [1],
                completed = [True]\<rparr> = Some False \<and>
   BankersAlgorithm [[0], [0]] [[0], [2]] [0] =
     Some \<lparr>allocation = [[0], [0]], max_claim = [[0], [2]], available = [0], resources = [0],
           completed = [False, False]\<rparr> \<and>
   releaseResources
     \<lparr>allocation = [[0], [0]], max_claim = [[0], [2]], available = [0], resources = [0],
      completed = [False, False]\<rparr> 0 [2] =
     Some \<lparr>allocation = [[- 2], [0]], max_claim = [[0], [2]], available = [2], resources = [2],
           completed = [False, False]\<rparr> \<and>
   requestResources
     \<lparr>allocation = [[- 2], [0]], max_claim = [[0], [2]], available = [2], resources = [2],
      completed = [False, False]\<rparr> 1 [1] =
     Some (True, \<lparr>allocation = [[- 2], [1]], max_claim = [[0], [2]], available = [2],
                  resources = [2], completed = [False, True]\<rparr>) \<and>
   isSafeState \<lparr>allocation = [[- 2], [1]], max_claim = [[0], [2]], available = [2],
                resources = [2], completed = [False, True]\<rparr> = Some False \<and>
   BankersAlgorithm [[0], [0]] [[1], [5]] [2147483647] =
     Some \<lparr>allocation = [[0], [0]], max_claim = [[1], [5]], available = [2147483647],
           resources = [0], completed = [False, False]\<rparr> \<and>
   nonneg_allocation
     \<lparr>allocation = [[0], [0]], max_claim = [[1], [5]], available = [2147483647],
      resources = [0], completed = [False, False]\<rparr> \<and>
   needs_fit
     \<lparr>allocation = [[0], [0]], max_claim = [[1], [5]], available = [2147483647],
      resources = [0], completed = [False, False]\<rparr> \<and>
   requestResources
     \<lparr>allocation = [[0], [0]], max_claim = [[1], [5]], available = [2147483647],
      resources = [0], completed = [False, False]\<rparr> 0 [1] =
     Some (True, \<lparr>allocation = [[1], [0]], max_claim = [[1], [5]], available = [2147483647],
                  resources = [0], completed = [True, False]\<rparr>) \<and>
   isSafeState \<lparr>allocation = [[1], [0]], max_claim = [[1], [5]], available = [2147483647],
                resources = [0], completed = [True, False]\<rparr> = Some False \<and>
   BankersAlgorithm [[2147483647], [1]] [[- 2147483647], [1]] [1] =
     Some \<lparr>allocation = [[2147483647], [1]], max_claim = [[- 2147483647], [1]],
           available = [1], resources = [- 2147483648], completed = [False, False]\<rparr> \<and>
   nonneg_allocation
     \<lparr>allocation = [[2147483647], [1]], max_claim = [[- 2147483647], [1]],
      available = [1], resources = [- 2147483648], completed = [False, False]\<rparr> \<and>
   requestResources
     \<lparr>allocation = [[2147483647], [1]], max_claim = [[- 2147483647], [1]],
      available = [1], resources = [- 2147483648], completed = [False, False]\<rparr> 0 [1] =
     Some (True, \<lparr>allocation = [[- 2147483648], [1]], max_claim = [[- 2147483647], [1]],
                  available = [1], resources = [- 2147483648],
                  completed = [True, False]\<rparr>) \<and>
   totals_fit \<lparr>allocation = [[- 2147483648], [1]], max_claim = [[- 2147483647], [1]],
               available = [1], resources = [- 2147483648], completed = [True, False]\<rparr> \<and>
   isSafeState \<lparr>allocation = [[- 2147483648], [1]], max_claim = [[- 2147483647], [1]],
                available = [1], resources = [- 2147483648], completed = [True, False]\<rparr> =
     Some False"
  by (intro conjI; code_simp)

subsection \<open>C2: what isSafeState decides\<close>




subsection \<open>C3: the units of a resource\<close>

text \<open>
  C3. For a resource index \<open>r\<close> within \<^verbatim>\<open>available\<close> and every row of \<^verbatim>\<open>allocation\<close>:
  a \<^verbatim>\<open>releaseResources\<close> whose subtraction and addition for \<open>r\<close> (lines 98-99) stay
  within the range of \<^verbatim>\<open>int\<close> leaves the sum of \<^verbatim>\<open>allocation[p][r]\<close> over all
  processes plus \<^verbatim>\<open>available[r]\<close> unchanged, and a granted \<^verbatim>\<open>requestResources\<close> whose
  addition for \<open>r\<close> (line 58) stays within the range raises it by \<^verbatim>\<open>demand[r]\<close> (by
  nothing where the demand has no entry \<open>r\<close>): the grant adds the demand to
  \<^verbatim>\<open>allocation\<close> and leaves \<^verbatim>\<open>available\<close> as it was.
\<close>

theorem total_after_release_and_grant:
  assumes "r < length (available s)" and "list_all (\<lambda>row. r < length row) (allocation s)"
  shows "(releaseResources s processId amounts = Some s' \<and>
          release_fits s processId amounts r \<longrightarrow> total s' r = total s r) \<and>
    (requestResources s processId demand = Some (True, s'') \<and>
     grant_fits s processId demand r \<longrightarrow>
       total s'' r = total s r + (if r < length demand then sint (demand ! r) else 0))"
proof (intro conjI impI)
  assume "releaseResources s processId amounts = Some s' \<and> release_fits s processId amounts r"
  then have "releaseResources s processId amounts = Some s'"
    and "release_fits s processId amounts r" by simp_all
  with assms show "total s' r = total s r" by (intro total_release)
next
  assume "requestResources s processId demand = Some (True, s'') \<and>
    grant_fits s processId demand r"
  then have "requestResources s processId demand = Some (True, s'')"
    and "grant_fits s processId demand r" by simp_all
  with assms
  show "total s'' r = total s r + (if r < length demand then sint (demand ! r) else 0)"
    by (intro total_grant)
qed

text \<open>The theorem at the release of line 254 and at the request of line 236, for
  resource 0.\<close>

theorem total_after_release_and_grant_witness:
  "0 < length (available scenario1) \<and>
   list_all (\<lambda>row. 0 < length row) (allocation scenario1) \<and>
   releaseResources scenario1 1 [3, 0, 2] =
     Some \<lparr>allocation = [[0, 1, 0], [0, 0, 0], [3, 0, 2], [2, 1, 1], [0, 0, 2]],
           max_claim = scenario_max, available = [6, 3, 4], resources = [10, 2, 7],
           completed = [False, False, False, False, False]\<rparr> \<and>
   release_fits scenario1 1 [3, 0, 2] 0 \<and>
   total \<lparr>allocation = [[0, 1, 0], [0, 0, 0], [3, 0, 2], [2, 1, 1], [0, 0, 2]],
          max_claim = scenario_max, available = [6, 3, 4], resources = [10, 2, 7],
          completed = [False, False, False, False, False]\<rparr> 0 = total scenario1 0 \<and>
   0 < length (available scenario0) \<and>
   list_all (\<lambda>row. 0 < length row) (allocation scenario0) \<and>
   requestResources scenario0 1 [1, 0, 2] = Some (True, scenario1) \<and>
   grant_fits scenario0 1 [1, 0, 2] 0 \<and>
   total scenario1 0 = total scenario0 0 + 1"
proof -
  let ?s2 = "\<lparr>allocation = [[0, 1, 0], [0, 0, 0], [3, 0, 2], [2, 1, 1], [0, 0, 2]],
      max_claim = scenario_max, available = [6, 3, 4], resources = [10, 2, 7],
      completed = [False, False, False, False, False]\<rparr>"
  have a1: "0 < length (available scenario1)" by code_simp
  have b1: "list_all (\<lambda>row. 0 < length row) (allocation scenario1)" by code_simp
  have r: "releaseResources scenario1 1 [3, 0, 2] = Some ?s2" by code_simp
  have rf: "release_fits scenario1 1 [3, 0, 2] 0" by code_simp
  have a0: "0 < length (available scenario0)" by code_simp
  have b0: "list_all (\<lambda>row. 0 < length row) (allocation scenario0)" by code_simp
  have g: "requestResources scenario0 1 [1, 0, 2] = Some (True, scenario1)" by code_simp
  have gf: "grant_fits scenario0 1 [1, 0, 2] 0" by code_simp
  from total_after_release_and_grant
    [OF a1 b1, where processId = 1 and amounts = "[3, 0, 2]" and s' = ?s2] r rf
  have "total ?s2 0 = total scenario1 0" by blast
  moreover from total_after_release_and_grant
    [OF a0 b0, where processId = 1 and demand = "[1, 0, 2]" and s'' = scenario1] g gf
  have "total scenario1 0 = total scenario0 0 + 1" by simp
  ultimately show ?thesis using a1 b1 r rf a0 b0 g gf by (intro conjI)
qed

text \<open>The granted request of line 236 changes the sum for resource 0 from 10 to 11.
  And a release of 2147483647 units by a process that holds 1, with 1 unit available,
  takes the sum from 2 to -4294967294: line 99 wraps. A grant of 1 unit to a process
  that holds 2147483647 takes the sum from 2147483649 to -2147483646: line 58 wraps.\<close>

theorem total_grows_counterexample:
  "BankersAlgorithm scenario_allocation scenario_max scenario_available = Some scenario0 \<and>
   requestResources scenario0 1 [1, 0, 2] = Some (True, scenario1) \<and>
   total scenario0 0 = 10 \<and> total scenario1 0 = 11 \<and>
   releaseResources \<lparr>allocation = [[1]], max_claim = [[1]], available = [1], resources = [1],
                     completed = [False]\<rparr> 0 [2147483647] =
     Some \<lparr>allocation = [[- 2147483646]], max_claim = [[1]], available = [- 2147483648],
           resources = [- 2147483648], completed = [False]\<rparr> \<and>
   total \<lparr>allocation = [[1]], max_claim = [[1]], available = [1], resources = [1],
          completed = [False]\<rparr> 0 = 2 \<and>
   total \<lparr>allocation = [[- 2147483646]], max_claim = [[1]], available = [- 2147483648],
          resources = [- 2147483648], completed = [False]\<rparr> 0 = - 4294967294 \<and>
   requestResources
     \<lparr>allocation = [[2147483647], [1]], max_claim = [[- 2147483647], [1]],
      available = [1], resources = [- 2147483648], completed = [False, False]\<rparr> 0 [1] =
     Some (True, \<lparr>allocation = [[- 2147483648], [1]], max_claim = [[- 2147483647], [1]],
                  available = [1], resources = [- 2147483648],
                  completed = [True, False]\<rparr>) \<and>
   total \<lparr>allocation = [[2147483647], [1]], max_claim = [[- 2147483647], [1]],
          available = [1], resources = [- 2147483648], completed = [False, False]\<rparr> 0 =
     2147483649 \<and>
   total \<lparr>allocation = [[- 2147483648], [1]], max_claim = [[- 2147483647], [1]],
          available = [1], resources = [- 2147483648], completed = [True, False]\<rparr> 0 =
     - 2147483646"
  by (intro conjI; code_simp)

subsection \<open>C4: a refused request\<close>

text \<open>
  C4. When \<^verbatim>\<open>requestResources\<close> returns false, for whichever reason, the state after
  the call is the state before it: \<^verbatim>\<open>allocation\<close> and \<^verbatim>\<open>available\<close> are unchanged, and
  so are the other fields.
\<close>

theorem denied_request_unchanged:
  assumes "requestResources s processId demand = Some (False, s')"
  shows "s' = s \<and> allocation s' = allocation s \<and> available s' = available s"
proof -
  from assms have "s' = s"
    by (auto simp: requestResources_def split: bind_splits if_splits)
  then show ?thesis by simp
qed

text \<open>The theorem at three requests on the state after line 236 that evaluate to a
  refusal: more than the remaining claim of process 1, more than is available
  (line 242), and a demand of process 0 within both that would leave nothing
  available. In each case the theorem gives the state after the call.\<close>

theorem denied_request_unchanged_witness:
  "requestResources scenario1 1 [1, 0, 0] = Some (False, scenario1) \<and>
   requestResources scenario1 0 [4, 3, 1] = Some (False, scenario1) \<and>
   requestResources scenario1 0 [3, 3, 2] = Some (False, scenario1)"
proof -
  have after: "requestResources scenario1 p d = Some (False, scenario1)"
    if "map_option fst (requestResources scenario1 p d) = Some False" for p d
  proof -
    from that obtain s' where r: "requestResources scenario1 p d = Some (False, s')"
      by (cases "requestResources scenario1 p d") auto
    with denied_request_unchanged [OF r] show ?thesis by simp
  qed
  have "map_option fst (requestResources scenario1 1 [1, 0, 0]) = Some False" by code_simp
  moreover have "map_option fst (requestResources scenario1 0 [4, 3, 1]) = Some False"
    by code_simp
  moreover have "map_option fst (requestResources scenario1 0 [3, 3, 2]) = Some False"
    by code_simp
  ultimately show ?thesis by (intro conjI after)
qed

subsection \<open>C5: a release and safety\<close>

text \<open>
  C5. A release keeps a safe state safe, provided that no entry of \<^verbatim>\<open>allocation\<close> and
  no amount is negative and that no total \<^verbatim>\<open>available[r]\<close> plus the sum of
  \<^verbatim>\<open>allocation[p][r]\<close> over all processes exceeds \<open>INT_MAX\<close>: if \<^verbatim>\<open>isSafeState\<close> returns
  true on such a state and \<^verbatim>\<open>releaseResources\<close> returns for a process in range and
  amounts between 0 and what the process holds, then \<^verbatim>\<open>isSafeState\<close> returns true on
  the state after the release.
\<close>

theorem release_keeps_safe:
  assumes "isSafeState s = Some True" and "releaseResources s processId amounts = Some s'"
    and "nonneg_allocation s" and "nonneg amounts"
    and "within_allocation s processId amounts" and "totals_fit s"
  shows "isSafeState s' = Some True"
proof (cases "amounts = []")
  case True
  from releaseResources_Some [OF assms(2)] True
  have "allocation s' = allocation s" "max_claim s' = max_claim s" "available s' = available s"
    by simp_all
  from isSafeState_fields [OF this] assms(1) show ?thesis by simp
next
  case False
  let ?p = "nat processId"
  from releaseResources_Some [OF assms(2)] False
  have al: "allocation s' = (allocation s)[?p := sub_prefix (allocation s ! ?p) amounts]"
    and av: "available s' = add_prefix (available s) amounts"
    and mx: "max_claim s' = max_claim s"
    and p: "?p < length (allocation s)"
    and len: "length amounts \<le> length (allocation s ! ?p)"
    by simp_all
  have inb: "in_bounds s" using assms(1) by (rule isSafeState_True_in_bounds)
  have ok: "sums_ok (allocation s) (available s) (numProcesses s) (numResources s)"
    using inb assms(3,6) by (rule sums_okI)
  from isSafeState_sound [OF inb ok assms(1)] obtain order where order: "code_order s order" ..
  define d where "d r = (if r < length amounts then sint (amounts ! r) else 0)" for r
  have nn: "\<forall>r<length amounts. 0 \<le> sint (amounts ! r)"
    using assms(4) by (simp add: nonneg_def list_all_length)
  have le: "\<forall>r<length amounts. sint (amounts ! r) \<le> sint (allocation s ! ?p ! r)"
    using assms(5) by (simp add: within_allocation_def list_all_length)
  have d0: "\<forall>r. 0 \<le> d r" using nn by (simp add: d_def)
  have pn: "?p < numProcesses s" using p by (simp add: numProcesses_def)
  have n: "numProcesses s' = numProcesses s" using al by (simp add: numProcesses_def)
  have m: "numResources s' = numResources s"
    using al by (intro numResources_update [of _ s ?p]) auto
  have rows: "length (allocation s' ! i) = length (allocation s ! i)"
    if "i < length (allocation s)" for i
    using that by (cases "i = ?p") (simp_all add: al)
  have inb': "in_bounds s'"
    using inb rows unfolding in_bounds_def n m
    by (simp add: mx av numProcesses_def) (simp add: al)
  have rl: "r < length (allocation s ! q)" if "q < numProcesses s" "r < numResources s" for q r
    using inb that by (simp add: in_bounds_def)
  have ra: "r < length (available s)" if "r < numResources s" for r
    using inb that by (simp add: in_bounds_def)
  have a0: "0 \<le> sint (allocation s ! q ! r)" if "q < numProcesses s" "r < numResources s" for q r
    using ok that by (simp add: sums_ok_def)
  have fit: "in_range (sint (allocation s ! ?p ! r) - sint (amounts ! r)) \<and>
      in_range (sint (available s ! r) + sint (amounts ! r))"
    if r: "r < numResources s" and ra: "r < length amounts" for r
  proof -
    from nn le ra have x: "0 \<le> sint (amounts ! r)" "sint (amounts ! r) \<le> sint (allocation s ! ?p ! r)"
      by simp_all
    have "in_range (sint (available s ! r) + (\<Sum>q\<leftarrow>[?p]. sint (allocation s ! q ! r)))"
      using ok _ _ r by (rule partial_sum_bounds(2)) (use pn in simp_all)
    then have "sint (available s ! r) + sint (allocation s ! ?p ! r) \<le> INT_MAX"
      by (simp add: in_range_def)
    with x sint_in_range [of "available s ! r"] sint_in_range [of "allocation s ! ?p ! r"]
    show ?thesis by (simp add: in_range_def INT_MIN_def)
  qed
  have alq: "sint (allocation s' ! q ! r) =
      sint (allocation s ! q ! r) - (if q = ?p then d r else 0)"
    if q: "q < numProcesses s" and r: "r < numResources s" for q r
  proof (cases "q = ?p \<and> r < length amounts")
    case True
    with fit [OF r] have "sint (allocation s ! ?p ! r - amounts ! r) =
        sint (allocation s ! ?p ! r) - sint (amounts ! r)" by (simp add: sint_sub_fits)
    with True p rl [OF q r] show ?thesis by (simp add: al nth_sub_prefix d_def)
  next
    case False
    with p rl [OF q r] show ?thesis by (cases "q = ?p") (simp_all add: al nth_sub_prefix d_def)
  qed
  have avr: "sint (available s' ! r) = sint (available s ! r) + d r"
    if r: "r < numResources s" for r
  proof (cases "r < length amounts")
    case True
    with fit [OF r] have "sint (available s ! r + amounts ! r) =
        sint (available s ! r) + sint (amounts ! r)" by (simp add: sint_add_fits)
    with True ra [OF r] show ?thesis by (simp add: av nth_add_prefix d_def)
  next
    case False
    with ra [OF r] show ?thesis by (simp add: av nth_add_prefix d_def)
  qed
  have ndq: "code_need s' q r \<le> code_need s q r + (if q = ?p then d r else 0)"
    if q: "q < numProcesses s" and r: "r < numResources s" for q r
  proof (cases "q = ?p \<and> r < length amounts")
    case True
    from nn True have "0 \<le> sint (amounts ! r)" by simp
    then have "sint (max_claim s ! ?p ! r - (allocation s ! ?p ! r - amounts ! r)) \<le>
        sint (max_claim s ! ?p ! r - allocation s ! ?p ! r) + sint (amounts ! r)"
      by (rule sint_sub_sub_le)
    with True p rl [OF q r] show ?thesis
      by (simp add: code_need_def al mx nth_sub_prefix d_def)
  next
    case False
    with p rl [OF q r] show ?thesis
      by (cases "q = ?p") (simp_all add: code_need_def al mx nth_sub_prefix d_def)
  qed
  have order': "code_order s' order"
    using order n m d0 by (rule code_order_release) (use alq ndq avr in blast)+
  have "total s' r = total s r" if r: "r < numResources s" for r
  proof -
    have "list_all (\<lambda>row. r < length row) (allocation s)"
      using rl r by (simp add: list_all_length numProcesses_def)
    moreover have "release_fits s processId amounts r"
      using fit [OF r] by (simp add: release_fits_def)
    ultimately show ?thesis using assms(2) ra [OF r] by (intro total_release)
  qed
  with assms(6) have tot: "totals_fit s'" by (simp add: totals_fit_iff m)
  have "0 \<le> sint (allocation s' ! q ! r)" if q: "q < numProcesses s" and r: "r < numResources s" for q r
  proof -
    have "d r \<le> sint (allocation s ! ?p ! r)" using le a0 [OF pn r] by (simp add: d_def)
    with alq [OF q r] a0 [OF q r] show ?thesis by (cases "q = ?p") simp_all
  qed
  with tot have ok': "sums_ok (allocation s') (available s') (numProcesses s') (numResources s')"
    unfolding sums_ok_iff by (simp add: n m)
  from inb' ok' order' show ?thesis by (rule isSafeState_complete)
qed

text \<open>The theorem at the release of line 254.\<close>

theorem release_keeps_safe_witness:
  "isSafeState scenario1 = Some True \<and>
   releaseResources scenario1 1 [3, 0, 2] =
     Some \<lparr>allocation = [[0, 1, 0], [0, 0, 0], [3, 0, 2], [2, 1, 1], [0, 0, 2]],
           max_claim = scenario_max, available = [6, 3, 4], resources = [10, 2, 7],
           completed = [False, False, False, False, False]\<rparr> \<and>
   nonneg_allocation scenario1 \<and> nonneg [3, 0, 2] \<and>
   within_allocation scenario1 1 [3, 0, 2] \<and> totals_fit scenario1 \<and>
   isSafeState \<lparr>allocation = [[0, 1, 0], [0, 0, 0], [3, 0, 2], [2, 1, 1], [0, 0, 2]],
           max_claim = scenario_max, available = [6, 3, 4], resources = [10, 2, 7],
           completed = [False, False, False, False, False]\<rparr> = Some True"
proof -
  let ?s2 = "\<lparr>allocation = [[0, 1, 0], [0, 0, 0], [3, 0, 2], [2, 1, 1], [0, 0, 2]],
      max_claim = scenario_max, available = [6, 3, 4], resources = [10, 2, 7],
      completed = [False, False, False, False, False]\<rparr>"
  have s: "isSafeState scenario1 = Some True" by code_simp
  have r: "releaseResources scenario1 1 [3, 0, 2] = Some ?s2" by code_simp
  have a: "nonneg_allocation scenario1" by code_simp
  have d: "nonneg [3, 0, 2]" by code_simp
  have w: "within_allocation scenario1 1 [3, 0, 2]" by code_simp
  have t: "totals_fit scenario1" by code_simp
  from release_keeps_safe [OF s r a d w t] s r a d w t show ?thesis by (intro conjI)
qed

text \<open>
  Without any one of the provisos a release can make a safe state unsafe. The amount
  \<open>-1\<close> is at most the 0 units process 1 holds; releasing it takes the unit process 0
  was waiting for. Where process 0 holds \<open>-1\<close> units (after it released a unit it never
  held), process 1 releases 1 of its 2 units: process 0 now fits first, takes the work
  from 3 to 2, and process 1, which needs 3, never fits. And with
  \<^verbatim>\<open>available = [2147483646]\<close> and 2 units allocated, process 2 releases its unit: the
  work now starts at 2147483647, line 153 takes it to -2147483648 after process 0, and
  the need of 5 of process 1 never fits.
\<close>

theorem release_unsafe_counterexample:
  "BankersAlgorithm [[1], [0]] [[2], [2]] [1] =
     Some \<lparr>allocation = [[1], [0]], max_claim = [[2], [2]], available = [1], resources = [1],
           completed = [False, False]\<rparr> \<and>
   isSafeState \<lparr>allocation = [[1], [0]], max_claim = [[2], [2]], available = [1],
                resources = [1], completed = [False, False]\<rparr> = Some True \<and>
   within_allocation \<lparr>allocation = [[1], [0]], max_claim = [[2], [2]], available = [1],
                      resources = [1], completed = [False, False]\<rparr> 1 [- 1] \<and>
   releaseResources \<lparr>allocation = [[1], [0]], max_claim = [[2], [2]], available = [1],
                     resources = [1], completed = [False, False]\<rparr> 1 [- 1] =
     Some \<lparr>allocation = [[1], [1]], max_claim = [[2], [2]], available = [0], resources = [0],
           completed = [False, False]\<rparr> \<and>
   isSafeState \<lparr>allocation = [[1], [1]], max_claim = [[2], [2]], available = [0],
                resources = [0], completed = [False, False]\<rparr> = Some False \<and>
   BankersAlgorithm [[0], [2]] [[2], [4]] [1] =
     Some \<lparr>allocation = [[0], [2]], max_claim = [[2], [4]], available = [1], resources = [2],
           completed = [False, False]\<rparr> \<and>
   releaseResources \<lparr>allocation = [[0], [2]], max_claim = [[2], [4]], available = [1],
                     resources = [2], completed = [False, False]\<rparr> 0 [1] =
     Some \<lparr>allocation = [[- 1], [2]], max_claim = [[2], [4]], available = [2],
           resources = [3], completed = [False, False]\<rparr> \<and>
   isSafeState \<lparr>allocation = [[- 1], [2]], max_claim = [[2], [4]], available = [2],
                resources = [3], completed = [False, False]\<rparr> = Some True \<and>
   within_allocation \<lparr>allocation = [[- 1], [2]], max_claim = [[2], [4]], available = [2],
                      resources = [3], completed = [False, False]\<rparr> 1 [1] \<and>
   releaseResources \<lparr>allocation = [[- 1], [2]], max_claim = [[2], [4]], available = [2],
                     resources = [3], completed = [False, False]\<rparr> 1 [1] =
     Some \<lparr>allocation = [[- 1], [1]], max_claim = [[2], [4]], available = [3],
           resources = [4], completed = [False, False]\<rparr> \<and>
   isSafeState \<lparr>allocation = [[- 1], [1]], max_claim = [[2], [4]], available = [3],
                resources = [4], completed = [False, False]\<rparr> = Some False \<and>
   BankersAlgorithm [[1], [0], [1]] [[1], [5], [1]] [2147483646] =
     Some \<lparr>allocation = [[1], [0], [1]], max_claim = [[1], [5], [1]],
           available = [2147483646], resources = [2],
           completed = [False, False, False]\<rparr> \<and>
   isSafeState \<lparr>allocation = [[1], [0], [1]], max_claim = [[1], [5], [1]],
                available = [2147483646], resources = [2],
                completed = [False, False, False]\<rparr> = Some True \<and>
   nonneg_allocation \<lparr>allocation = [[1], [0], [1]], max_claim = [[1], [5], [1]],
                      available = [2147483646], resources = [2],
                      completed = [False, False, False]\<rparr> \<and>
   within_allocation \<lparr>allocation = [[1], [0], [1]], max_claim = [[1], [5], [1]],
                      available = [2147483646], resources = [2],
                      completed = [False, False, False]\<rparr> 2 [1] \<and>
   releaseResources \<lparr>allocation = [[1], [0], [1]], max_claim = [[1], [5], [1]],
                     available = [2147483646], resources = [2],
                     completed = [False, False, False]\<rparr> 2 [1] =
     Some \<lparr>allocation = [[1], [0], [0]], max_claim = [[1], [5], [1]],
           available = [2147483647], resources = [3],
           completed = [False, False, False]\<rparr> \<and>
   isSafeState \<lparr>allocation = [[1], [0], [0]], max_claim = [[1], [5], [1]],
                available = [2147483647], resources = [3],
                completed = [False, False, False]\<rparr> = Some False"
  by (intro conjI; code_simp)

subsection \<open>C6: releasing more than is held\<close>

text \<open>
  C6. \<^verbatim>\<open>releaseResources\<close> compares no amount with the allocation. For a process in
  range and amounts no longer than its row of \<^verbatim>\<open>allocation\<close>, \<^verbatim>\<open>available\<close> and
  \<^verbatim>\<open>resources\<close>, it returns, whatever the amounts are: it has subtracted them from
  \<^verbatim>\<open>allocation[processId]\<close>, added them to \<^verbatim>\<open>available\<close> and to \<^verbatim>\<open>resources\<close>, and
  cleared \<^verbatim>\<open>completed[processId]\<close>. The subtractions and additions are those of
  \<^verbatim>\<open>int\<close>, which wrap: \<open>sub_prefix\<close> and \<open>add_prefix\<close> are lines 98-100 on 32-bit words.
\<close>

theorem releaseResources_unchecked:
  assumes "0 \<le> processId" and "nat processId < length (allocation s)"
    and "nat processId < length (completed s)"
    and "length amounts \<le> length (allocation s ! nat processId)"
    and "length amounts \<le> length (available s)" and "length amounts \<le> length (resources s)"
  shows "releaseResources s processId amounts =
    Some (s\<lparr>allocation :=
              (allocation s)[nat processId := sub_prefix (allocation s ! nat processId) amounts],
            available := add_prefix (available s) amounts,
            resources := add_prefix (resources s) amounts,
            completed := (completed s)[nat processId := False]\<rparr>)"
proof (cases "amounts = []")
  case True
  with assms(1,3) show ?thesis
    by (simp add: releaseResources_def set_completed_def)
next
  case False
  with assms show ?thesis
    by (simp add: releaseResources_def set_completed_def release_loop_full)
qed

text \<open>The theorem at the release of line 254.\<close>

theorem releaseResources_unchecked_witness:
  "(0 :: int) \<le> 1 \<and> nat 1 < length (allocation scenario1) \<and>
   nat 1 < length (completed scenario1) \<and>
   length [3, 0, 2 :: cint] \<le> length (allocation scenario1 ! nat 1) \<and>
   length [3, 0, 2 :: cint] \<le> length (available scenario1) \<and>
   length [3, 0, 2 :: cint] \<le> length (resources scenario1) \<and>
   releaseResources scenario1 1 [3, 0, 2] =
     Some (scenario1\<lparr>allocation :=
              (allocation scenario1)[nat 1 := sub_prefix (allocation scenario1 ! nat 1) [3, 0, 2]],
            available := add_prefix (available scenario1) [3, 0, 2],
            resources := add_prefix (resources scenario1) [3, 0, 2],
            completed := (completed scenario1)[nat 1 := False]\<rparr>)"
proof -
  have h1: "(0 :: int) \<le> 1" by simp
  have h2: "nat 1 < length (allocation scenario1)" by code_simp
  have h3: "nat 1 < length (completed scenario1)" by code_simp
  have h4: "length [3, 0, 2 :: cint] \<le> length (allocation scenario1 ! nat 1)" by code_simp
  have h5: "length [3, 0, 2 :: cint] \<le> length (available scenario1)" by code_simp
  have h6: "length [3, 0, 2 :: cint] \<le> length (resources scenario1)" by code_simp
  from releaseResources_unchecked [OF h1 h2 h3 h4 h5 h6] h1 h2 h3 h4 h5 h6
  show ?thesis by (intro conjI)
qed

text \<open>A process that holds 1 unit releases 2: the call returns, and the state has
  changed, with \<open>-1\<close> unit allocated. When it releases 2147483647 with 1 unit
  available, \<^verbatim>\<open>available\<close> wraps to -2147483648.\<close>

theorem release_more_than_held_counterexample:
  "BankersAlgorithm [[1]] [[2]] [0] =
     Some \<lparr>allocation = [[1]], max_claim = [[2]], available = [0], resources = [1],
           completed = [False]\<rparr> \<and>
   releaseResources \<lparr>allocation = [[1]], max_claim = [[2]], available = [0], resources = [1],
                     completed = [False]\<rparr> 0 [2] =
     Some \<lparr>allocation = [[- 1]], max_claim = [[2]], available = [2], resources = [3],
           completed = [False]\<rparr> \<and>
   \<lparr>allocation = [[- 1]], max_claim = [[2]], available = [2], resources = [3],
    completed = [False]\<rparr> \<noteq>
   \<lparr>allocation = [[1 :: cint]], max_claim = [[2 :: cint]], available = [0 :: cint],
    resources = [1 :: cint], completed = [False]\<rparr> \<and>
   BankersAlgorithm [[1]] [[1]] [1] =
     Some \<lparr>allocation = [[1]], max_claim = [[1]], available = [1], resources = [1],
           completed = [False]\<rparr> \<and>
   releaseResources \<lparr>allocation = [[1]], max_claim = [[1]], available = [1], resources = [1],
                     completed = [False]\<rparr> 0 [2147483647] =
     Some \<lparr>allocation = [[- 2147483646]], max_claim = [[1]], available = [- 2147483648],
           resources = [- 2147483648], completed = [False]\<rparr>"
  by (intro conjI; code_simp)

subsection \<open>C7: a process id out of range\<close>

text \<open>
  C7. The operations do not check \<^verbatim>\<open>processId\<close>. On an object whose \<^verbatim>\<open>completed\<close> is as
  long as \<^verbatim>\<open>allocation\<close> (the constructor makes it so, and no operation changes a
  length), a \<^verbatim>\<open>processId\<close> below 0 or not below \<^verbatim>\<open>numProcesses\<close> makes
  \<^verbatim>\<open>releaseResources\<close> index a vector out of bounds; \<^verbatim>\<open>requestResources\<close> does the
  same, except that with an empty demand it may return false and leave the state as
  it was. The value \<open>None\<close> stands for the access out of bounds, after which the
  language defines no behaviour: nothing is said of what such a call returns or of the
  state it leaves.
\<close>

theorem unknown_process_out_of_bounds:
  assumes "processId < 0 \<or> int (length (allocation s)) \<le> processId"
    and "length (completed s) = length (allocation s)"
  shows "releaseResources s processId amounts = None \<and>
         (requestResources s processId demand = None \<or>
          demand = [] \<and> requestResources s processId demand = Some (False, s))"
proof -
  have nc: "set_completed (completed s) processId b = None" for b
    using assms by (auto simp: set_completed_def)
  have rel: "releaseResources s processId amounts = None"
    by (auto simp: releaseResources_def nc split: bind_splits)
  have al: "vec_at_int (allocation s) processId = None"
    using assms(1) by (auto simp: vec_at_int_def vec_at_def)
  show ?thesis
  proof (cases "demand = []")
    case True
    then have "requestResources s processId demand = None \<or>
        requestResources s processId demand = Some (False, s)"
      by (auto simp: requestResources_def nc split: bind_splits)
    with True rel show ?thesis by auto
  next
    case False
    then have "[0..<length demand] = 0 # [1..<length demand]" by (simp add: upt_conv_Cons)
    then have "check_request s processId demand [0..<length demand] = None"
      by (auto simp: al split: bind_splits)
    then have "requestResources s processId demand = None" by (simp add: requestResources_def)
    with rel show ?thesis by simp
  qed
qed

text \<open>The theorem at process id 5 on an object with one process.\<close>

theorem unknown_process_out_of_bounds_witness:
  "int (length (allocation \<lparr>allocation = [[0]], max_claim = [[1]], available = [0],
      resources = [0], completed = [False]\<rparr>)) \<le> 5 \<and>
   length (completed \<lparr>allocation = [[0 :: cint]], max_claim = [[1]], available = [0],
      resources = [0], completed = [False]\<rparr>) =
   length (allocation \<lparr>allocation = [[0 :: cint]], max_claim = [[1]], available = [0],
      resources = [0], completed = [False]\<rparr>) \<and>
   releaseResources \<lparr>allocation = [[0]], max_claim = [[1]], available = [0],
      resources = [0], completed = [False]\<rparr> 5 [1] = None \<and>
   requestResources \<lparr>allocation = [[0]], max_claim = [[1]], available = [0],
      resources = [0], completed = [False]\<rparr> 5 [1] = None"
proof -
  let ?u = "\<lparr>allocation = [[0 :: cint]], max_claim = [[1]], available = [0], resources = [0],
      completed = [False]\<rparr>"
  have h1: "int (length (allocation ?u)) \<le> 5" by simp
  then have h1': "5 < 0 \<or> int (length (allocation ?u)) \<le> 5" by simp
  have h2: "length (completed ?u) = length (allocation ?u)" by simp
  from unknown_process_out_of_bounds [OF h1' h2, of "[1]" "[1]"]
  have "releaseResources ?u 5 [1] = None" and "requestResources ?u 5 [1] = None"
    by simp_all
  with h1 h2 show ?thesis by (intro conjI)
qed

text \<open>With process id 5, an empty demand and a state that is not safe,
  \<^verbatim>\<open>requestResources\<close> returns false as for any refused request; with a demand of one
  entry, and in \<^verbatim>\<open>releaseResources\<close>, the program indexes a vector out of bounds.\<close>

theorem unknown_process_counterexample:
  "BankersAlgorithm [[0]] [[1]] [0] =
     Some \<lparr>allocation = [[0]], max_claim = [[1]], available = [0], resources = [0],
           completed = [False]\<rparr> \<and>
   requestResources \<lparr>allocation = [[0]], max_claim = [[1]], available = [0], resources = [0],
                     completed = [False]\<rparr> 5 [] =
     Some (False, \<lparr>allocation = [[0]], max_claim = [[1]], available = [0], resources = [0],
                   completed = [False]\<rparr>) \<and>
   requestResources \<lparr>allocation = [[0]], max_claim = [[1]], available = [0], resources = [0],
                     completed = [False]\<rparr> 5 [1] = None \<and>
   releaseResources \<lparr>allocation = [[0]], max_claim = [[1]], available = [0], resources = [0],
                     completed = [False]\<rparr> 5 [1] = None"
  by (intro conjI; code_simp)

subsection \<open>C8: the completed flags\<close>

text \<open>
  C8. A granted request sets the \<^verbatim>\<open>completed\<close> flag of \<^verbatim>\<open>processId\<close> (line 74) and
  changes no other flag.
\<close>

theorem grant_sets_completed:
  assumes "requestResources s processId demand = Some (True, s')"
  shows "0 \<le> processId \<and> nat processId < length (completed s) \<and>
         completed s' = (completed s)[nat processId := True]"
proof -
  from requestResources_granted [OF assms] have
    "s' = s\<lparr>allocation :=
              (allocation s)[nat processId := add_prefix (allocation s ! nat processId) demand],
            available := available s, resources := resources s,
            completed := (completed s)[nat processId := True]\<rparr>"
    and "0 \<le> processId" and "nat processId < length (completed s)"
    by blast+
  then show ?thesis by simp
qed

text \<open>The theorem at the request of line 236.\<close>

theorem grant_sets_completed_witness:
  "requestResources scenario0 1 [1, 0, 2] = Some (True, scenario1) \<and>
   completed scenario1 = (completed scenario0)[nat 1 := True]"
proof -
  have g: "requestResources scenario0 1 [1, 0, 2] = Some (True, scenario1)" by code_simp
  from grant_sets_completed [OF g] g show ?thesis by (intro conjI) simp_all
qed

text \<open>The flag of process 1 is false before the request of line 236 and true after
  it.\<close>

theorem grant_changes_completed_counterexample:
  "BankersAlgorithm scenario_allocation scenario_max scenario_available = Some scenario0 \<and>
   completed scenario0 ! 1 = False \<and>
   requestResources scenario0 1 [1, 0, 2] = Some (True, scenario1) \<and>
   completed scenario1 ! 1 = True"
  by (intro conjI; code_simp)

subsection \<open>C9: the scenario of runScenarios\<close>

text \<open>
  C9. From the state built at line 231, \<^verbatim>\<open>requestResources(1, [1,0,2])\<close> returns true;
  on the state it leaves, \<^verbatim>\<open>requestResources(0, [4,3,1])\<close> returns false; and after
  those two calls \<^verbatim>\<open>requestResources(2, [6,0,0])\<close> returns false.
\<close>

theorem classic_scenario:
  "BankersAlgorithm scenario_allocation scenario_max scenario_available = Some scenario0 \<and>
   requestResources scenario0 1 [1, 0, 2] = Some (True, scenario1) \<and>
   requestResources scenario1 0 [4, 3, 1] = Some (False, scenario1) \<and>
   requestResources scenario1 2 [6, 0, 0] = Some (False, scenario1)"
proof (intro conjI)
  show "BankersAlgorithm scenario_allocation scenario_max scenario_available = Some scenario0"
    by code_simp
  show "requestResources scenario0 1 [1, 0, 2] = Some (True, scenario1)"
    by code_simp
  show "requestResources scenario1 0 [4, 3, 1] = Some (False, scenario1)"
    by code_simp
  show "requestResources scenario1 2 [6, 0, 0] = Some (False, scenario1)"
    by code_simp
qed

subsection \<open>C10: the available vector after a grant\<close>

text \<open>
  C10. After a granted request \<^verbatim>\<open>available\<close> is what it was before the call, and the
  row of \<^verbatim>\<open>processId\<close> in \<^verbatim>\<open>allocation\<close> has grown by the demand, entry by entry.
\<close>

theorem grant_restores_available:
  assumes "requestResources s processId demand = Some (True, s')"
  shows "available s' = available s \<and>
         allocation s' =
           (allocation s)[nat processId := add_prefix (allocation s ! nat processId) demand]"
proof -
  from requestResources_granted [OF assms] have
    "s' = s\<lparr>allocation :=
              (allocation s)[nat processId := add_prefix (allocation s ! nat processId) demand],
            available := available s, resources := resources s,
            completed := (completed s)[nat processId := True]\<rparr>"
    by blast
  then show ?thesis by simp
qed

text \<open>The theorem at the request of line 236.\<close>

theorem grant_restores_available_witness:
  "requestResources scenario0 1 [1, 0, 2] = Some (True, scenario1) \<and>
   available scenario1 = available scenario0 \<and>
   allocation scenario1 =
     (allocation scenario0)[nat 1 := add_prefix (allocation scenario0 ! nat 1) [1, 0, 2]]"
proof -
  have g: "requestResources scenario0 1 [1, 0, 2] = Some (True, scenario1)" by code_simp
  from grant_restores_available [OF g] g show ?thesis by (intro conjI) simp_all
qed

end
